theory Spec2Isabelle
  imports Complex_Main "HOL-Library.Multiset"
begin

section \<open>Sequence preprocessing of GA-DPAMSA: data model\<close>

text \<open>
  The functions of \<^verbatim>\<open>datasets/orthodb_preparation/data_utils.py\<close> and the file
  indexer of \<^verbatim>\<open>dataset_module/fasta_dataset.py\<close>, as HOL functions.

  Text is a \<^typ>\<open>string\<close>: a list of characters, each a code point below 256.
  A FASTA record is the pair \<open>(header, seq)\<close> the source builds, a record collection
  a list of them. Python exceptions are values of \<open>py_error\<close>, returned as \<open>Inl\<close>.
\<close>

type_synonym fasta_record = "string \<times> string"

datatype py_error = KeyError | ValueError | IndexError

subsection \<open>Duplicate removal\<close>

text \<open>
  \<^verbatim>\<open>unique = OrderedDict()\<close> is an association list from sequence to header, in
  insertion order. \<open>seq not in unique\<close> is a failed lookup; \<open>unique[seq] = header\<close>
  on a new key appends the entry.
\<close>

definition unique_step :: "(string \<times> string) list \<Rightarrow> fasta_record \<Rightarrow> (string \<times> string) list" where
  "unique_step unique r =
     (case r of (header, seq) \<Rightarrow>
        if map_of unique seq = None then unique @ [(seq, header)] else unique)"

definition make_unique_records :: "fasta_record list \<Rightarrow> fasta_record list" where
  "make_unique_records records =
     map (\<lambda>(seq, header). (header, seq)) (foldl unique_step [] records)"

text \<open>
  \<^verbatim>\<open>Counter(seqs)\<close> is a dictionary from element to count, in order of first
  insertion: counting an element either bumps its entry or appends a new one.
\<close>

fun counter_add :: "('a \<times> nat) list \<Rightarrow> 'a \<Rightarrow> ('a \<times> nat) list" where
  "counter_add [] x = [(x, 1)]"
| "counter_add ((k, c) # kcs) x =
     (if k = x then (k, Suc c) # kcs else (k, c) # counter_add kcs x)"

definition Counter :: "'a list \<Rightarrow> ('a \<times> nat) list" where
  "Counter xs = foldl counter_add [] xs"

definition find_duplicate_sequences :: "fasta_record list \<Rightarrow> (string \<times> nat) list" where
  "find_duplicate_sequences records =
     (let seqs = map snd records;
          counter = Counter seqs
      in filter (\<lambda>(seq, count). count > 1) counter)"

text \<open>
  The record at index \<open>i\<close> is a first occurrence when none of the records before it
  carries the same sequence string.
\<close>

definition first_occurrence :: "fasta_record list \<Rightarrow> nat \<Rightarrow> bool" where
  "first_occurrence rs i = (snd (rs ! i) \<notin> snd ` set (take i rs))"

subsection \<open>Cut lengths\<close>

text \<open>
  \<^verbatim>\<open>random.randint(a, b)\<close> returns some integer of the closed range and raises
  ValueError on an empty range. The model returns the set of the values a call can
  return, so a statement about every returned value is a statement about every member.
\<close>

definition randint :: "int \<Rightarrow> int \<Rightarrow> py_error + int set" where
  "randint a b = (if a \<le> b then Inr {a..b} else Inl ValueError)"

definition random_cut_length :: "int \<Rightarrow> int \<Rightarrow> int \<Rightarrow> py_error + int set" where
  "random_cut_length orig_len K H =
     (if orig_len \<le> K then Inr {orig_len}
      else
        let min_len = max 1 (K - H);
            max_len = min K orig_len;
            min_len = (if min_len > max_len then max_len else min_len)
        in randint min_len max_len)"

text \<open>The range the specification promises for a cut length \<open>v\<close>.\<close>

definition cut_length_ok :: "int \<Rightarrow> int \<Rightarrow> int \<Rightarrow> bool" where
  "cut_length_ok orig_len K v = (1 \<le> v \<and> v \<le> orig_len \<and> v \<le> K)"

subsection \<open>Characters\<close>

text \<open>
  \<^verbatim>\<open>str.upper\<close>, \<^verbatim>\<open>str.lower\<close> and \<^verbatim>\<open>str.isupper\<close> on the ASCII letters.
  The source compares upper-cased characters with ASCII letters only (the bases and the
  IUPAC symbols) and lower-cases bases only. Below code point 256 Python's case mapping
  differs from this one on non-ASCII letters alone, and it never maps one of them to an
  ASCII letter, so the comparisons of the source give the same answers.
\<close>

definition ascii_lowercase :: string where
  "ascii_lowercase = ''abcdefghijklmnopqrstuvwxyz''"

definition ascii_uppercase :: string where
  "ascii_uppercase = ''ABCDEFGHIJKLMNOPQRSTUVWXYZ''"

definition py_upper :: "char \<Rightarrow> char" where
  "py_upper c = (case map_of (zip ascii_lowercase ascii_uppercase) c of Some u \<Rightarrow> u | None \<Rightarrow> c)"

definition py_lower :: "char \<Rightarrow> char" where
  "py_lower c = (case map_of (zip ascii_uppercase ascii_lowercase) c of Some l \<Rightarrow> l | None \<Rightarrow> c)"

definition py_isupper :: "char \<Rightarrow> bool" where
  "py_isupper c = (c \<in> set ascii_uppercase)"

subsection \<open>Base composition\<close>






subsection \<open>Ambiguity resolution\<close>

text \<open>
  The table of IUPAC codes, and dictionaries as association lists: \<^verbatim>\<open>d[k]\<close> raises
  KeyError on a missing key, and a list comprehension of lookups raises at the first
  missing one.
\<close>

definition AMBIGUOUS_NUCLEOTIDES :: "(char \<times> string) list" where
  "AMBIGUOUS_NUCLEOTIDES =
     [(CHR ''R'', ''AG''), (CHR ''Y'', ''CT''), (CHR ''S'', ''GC''), (CHR ''W'', ''AT''),
      (CHR ''K'', ''GT''), (CHR ''M'', ''AC''), (CHR ''B'', ''CGT''), (CHR ''D'', ''AGT''),
      (CHR ''H'', ''ACT''), (CHR ''V'', ''ACG'')]"

definition lookup :: "('k \<times> 'v) list \<Rightarrow> 'k \<Rightarrow> py_error + 'v" where
  "lookup d k = (case map_of d k of None \<Rightarrow> Inl KeyError | Some v \<Rightarrow> Inr v)"

fun lookup_all :: "('k \<times> 'v) list \<Rightarrow> 'k list \<Rightarrow> py_error + 'v list" where
  "lookup_all d [] = Inr []"
| "lookup_all d (k # ks) =
     (case lookup d k of
        Inl e \<Rightarrow> Inl e
      | Inr v \<Rightarrow> (case lookup_all d ks of Inl e \<Rightarrow> Inl e | Inr vs \<Rightarrow> Inr (v # vs)))"

text \<open>
  The weights and the draws are Python floats. The model does not fix their arithmetic:
  each operation that the source and \<^verbatim>\<open>random.choices\<close> perform on them is a field of
  the record \<open>arith\<close>, over a type \<open>'f\<close> of numbers, so the definitions below compute what
  the code computes whatever these operations do, rounding, infinities and not-a-number
  included.
  \<^item> \<open>fzero\<close> is the number 0: the \<^verbatim>\<open>0\<close> that \<^verbatim>\<open>sum\<close> starts from and the \<^verbatim>\<open>0.0\<close> of
    \<^verbatim>\<open>random.choices\<close>;
  \<^item> \<open>fadd\<close>, \<open>fmul\<close>, \<open>fdiv\<close> are \<^verbatim>\<open>+\<close>, \<^verbatim>\<open>*\<close>, \<^verbatim>\<open>/\<close>, and \<open>fratio a b\<close> is the true
    division \<^verbatim>\<open>a / b\<close> of two integers;
  \<^item> \<open>fsum\<close> is the builtin \<^verbatim>\<open>sum\<close> of a list of numbers: CPython up to 3.11 adds the
    elements to 0 from left to right, later versions also carry a correction for the
    rounding errors of these additions;
  \<^item> \<open>flt\<close>, \<open>fle\<close> are \<^verbatim>\<open><\<close>, \<^verbatim>\<open><=\<close>, \<open>is_zero x\<close> is \<^verbatim>\<open>x == 0\<close> and \<open>isfinite\<close> is
    \<^verbatim>\<open>math.isfinite\<close>.
\<close>

record 'f arith =
  fzero :: 'f
  fadd :: "'f \<Rightarrow> 'f \<Rightarrow> 'f"
  fmul :: "'f \<Rightarrow> 'f \<Rightarrow> 'f"
  fdiv :: "'f \<Rightarrow> 'f \<Rightarrow> 'f"
  fratio :: "nat \<Rightarrow> nat \<Rightarrow> 'f"
  fsum :: "'f list \<Rightarrow> 'f"
  flt :: "'f \<Rightarrow> 'f \<Rightarrow> bool"
  fle :: "'f \<Rightarrow> 'f \<Rightarrow> bool"
  is_zero :: "'f \<Rightarrow> bool"
  isfinite :: "'f \<Rightarrow> bool"

text \<open>
  \<^verbatim>\<open>_weights_for_symbol\<close>. The \<^verbatim>\<open>lru_cache\<close> around it stores results of a pure
  function under its arguments and does not change what a call returns. The division
  \<^verbatim>\<open>w / s\<close> is reached only when \<^verbatim>\<open>s == 0\<close> is false, so it does not raise.
\<close>

definition weights_for_symbol ::
    "'f arith \<Rightarrow> char \<Rightarrow> 'f list \<Rightarrow> py_error + (string \<times> 'f list)" where
  "weights_for_symbol ar symbol base_probs_tuple =
     (let base_probs = zip ''ACGT'' base_probs_tuple in
      case lookup AMBIGUOUS_NUCLEOTIDES symbol of
        Inl e \<Rightarrow> Inl e
      | Inr possible \<Rightarrow>
          (case lookup_all base_probs possible of
             Inl e \<Rightarrow> Inl e
           | Inr weights \<Rightarrow>
               let s = fsum ar weights;
                   weights = (if is_zero ar s
                              then replicate (length possible) (fratio ar 1 (length possible))
                              else map (\<lambda>w. fdiv ar w s) weights)
               in Inr (possible, weights)))"

text \<open>
  \<^verbatim>\<open>random.choices(population, weights=weights, k=1)[0]\<close> of the standard library:
  the running sums of the weights (\<^verbatim>\<open>itertools.accumulate\<close>: the first weight, then each
  sum plus the next weight), their last entry plus \<^verbatim>\<open>0.0\<close> as total, ValueError for a
  total that is not positive or not finite, one draw \<open>u\<close> of \<^verbatim>\<open>random.random()\<close> scaled
  by the total, and a binary search for it among the first \<open>n - 1\<close> running sums. The
  draw is an argument of the model. The search reads \<open>a ! mid\<close> with \<open>mid < hi\<close> only,
  inside the list for \<open>hi \<le> n - 1\<close>.
\<close>

fun accumulate_from :: "'f arith \<Rightarrow> 'f \<Rightarrow> 'f list \<Rightarrow> 'f list" where
  "accumulate_from ar running [] = []"
| "accumulate_from ar running (w # ws) =
     fadd ar running w # accumulate_from ar (fadd ar running w) ws"

definition accumulate :: "'f arith \<Rightarrow> 'f list \<Rightarrow> 'f list" where
  "accumulate ar ws = (case ws of [] \<Rightarrow> [] | w # ws' \<Rightarrow> w # accumulate_from ar w ws')"

function bisect_right :: "'f arith \<Rightarrow> 'f list \<Rightarrow> 'f \<Rightarrow> nat \<Rightarrow> nat \<Rightarrow> nat" where
  "bisect_right ar a x lo hi =
     (if lo < hi
      then (let mid = (lo + hi) div 2
            in if flt ar x (a ! mid) then bisect_right ar a x lo mid
               else bisect_right ar a x (mid + 1) hi)
      else lo)"
  by pat_completeness auto
termination
  by (relation "measure (\<lambda>(ar, a, x, lo, hi). hi - lo)") auto

declare bisect_right.simps [simp del]

definition choices :: "'f arith \<Rightarrow> 'a list \<Rightarrow> 'f list \<Rightarrow> 'f \<Rightarrow> py_error + 'a" where
  "choices ar population weights u =
     (let n = length population;
          cum_weights = accumulate ar weights
      in if length cum_weights \<noteq> n then Inl ValueError
         else if cum_weights = [] then Inl IndexError
         else
           let total = fadd ar (last cum_weights) (fzero ar)
           in if fle ar total (fzero ar) then Inl ValueError
              else if \<not> isfinite ar total then Inl ValueError
              else Inr (population ! bisect_right ar cum_weights (fmul ar u total) 0 (n - 1)))"

text \<open>
  \<^verbatim>\<open>resolve_ambiguous_sequence\<close>. The tuple of the four weights is read first, so a
  distribution that lacks a base raises KeyError whatever the sequence. The random
  source is the function \<open>rng\<close>: \<open>rng k\<close> is the value of the \<open>k\<close>-th call of
  \<^verbatim>\<open>random.random()\<close>, and each resolved character makes one call.
\<close>

fun resolve_chars ::
    "'f arith \<Rightarrow> string \<Rightarrow> 'f list \<Rightarrow> (nat \<Rightarrow> 'f) \<Rightarrow> nat \<Rightarrow> py_error + string" where
  "resolve_chars ar [] base_probs_tuple rng k = Inr []"
| "resolve_chars ar (ch # seq) base_probs_tuple rng k =
     (let up = py_upper ch in
      if map_of AMBIGUOUS_NUCLEOTIDES up \<noteq> None then
        (case weights_for_symbol ar up base_probs_tuple of
           Inl e \<Rightarrow> Inl e
         | Inr (bases, weights) \<Rightarrow>
             (case choices ar bases weights (rng k) of
                Inl e \<Rightarrow> Inl e
              | Inr chosen \<Rightarrow>
                  (case resolve_chars ar seq base_probs_tuple rng (Suc k) of
                     Inl e \<Rightarrow> Inl e
                   | Inr new_chars \<Rightarrow>
                       Inr ((if py_isupper ch then chosen else py_lower chosen) # new_chars))))
      else
        (case resolve_chars ar seq base_probs_tuple rng k of
           Inl e \<Rightarrow> Inl e
         | Inr new_chars \<Rightarrow> Inr (ch # new_chars)))"

definition resolve_ambiguous_sequence ::
    "'f arith \<Rightarrow> string \<Rightarrow> (char \<times> 'f) list \<Rightarrow> (nat \<Rightarrow> 'f) \<Rightarrow> py_error + string" where
  "resolve_ambiguous_sequence ar seq base_probs rng =
     (case lookup_all base_probs ''ACGT'' of
        Inl e \<Rightarrow> Inl e
      | Inr base_probs_tuple \<Rightarrow> resolve_chars ar seq base_probs_tuple rng 0)"

text \<open>
  Two arithmetics. \<open>exact\<close> computes with real numbers without rounding; it is the
  arithmetic in which the specification speaks of probabilities.
\<close>

definition exact :: "real arith" where
  "exact =
     \<lparr>fzero = 0, fadd = (+), fmul = (*), fdiv = (/),
      fratio = (\<lambda>a b. real a / real b), fsum = sum_list, flt = (<), fle = (\<le>),
      is_zero = (\<lambda>x. x = 0), isfinite = (\<lambda>x. True)\<rparr>"

text \<open>
  \<open>binary64\<close> is the arithmetic of Python floats: IEEE 754 double precision, rounding to
  nearest, ties to even. A float is a finite number, an infinity or not-a-number; the
  two zeros of IEEE 754 are one value here, since the code nowhere tells them apart
  (it compares, adds, multiplies and divides by numbers other than zero).
  \<open>binade x\<close> is the exponent \<open>e\<close> with \<open>2^e \<le> |x| < 2^(e + 1)\<close>, kept within the exponents
  of doubles (from \<open>-1022\<close>, where the subnormal numbers begin, to \<open>1023\<close>); the doubles of
  that binade are the multiples of \<open>2^(e - 52)\<close>. \<open>round_binary64 x\<close> is the multiple
  nearest to \<open>x\<close>, and \<open>to_float\<close> turns a result that rounds to \<open>2^1024\<close> or beyond into
  an infinity.
\<close>

datatype py_float = Fin real | PosInf | NegInf | NaN

function binade_up :: "int \<Rightarrow> real \<Rightarrow> int" where
  "binade_up e x = (if x < 2 \<or> 1023 \<le> e then e else binade_up (e + 1) (x / 2))"
  by pat_completeness auto
termination
  by (relation "measure (\<lambda>(e, x). nat (1023 - e))") auto

function binade_down :: "int \<Rightarrow> real \<Rightarrow> int" where
  "binade_down e x = (if 1 \<le> x \<or> e \<le> - 1022 then e else binade_down (e - 1) (2 * x))"
  by pat_completeness auto
termination
  by (relation "measure (\<lambda>(e, x). nat (e + 1022))") auto

definition binade :: "real \<Rightarrow> int" where
  "binade x = (if 1 \<le> \<bar>x\<bar> then binade_up 0 \<bar>x\<bar> else binade_down 0 \<bar>x\<bar>)"

definition round_half_even :: "real \<Rightarrow> int" where
  "round_half_even x =
     (let f = \<lfloor>x\<rfloor>; d = x - of_int f
      in if d < 1 / 2 then f else if 1 / 2 < d then f + 1 else if even f then f else f + 1)"

definition round_binary64 :: "real \<Rightarrow> real" where
  "round_binary64 x =
     (if x = 0 then 0
      else let ulp = 2 powi (binade x - 52)
           in of_int (round_half_even (x / ulp)) * ulp)"

definition to_float :: "real \<Rightarrow> py_float" where
  "to_float x =
     (let r = round_binary64 x
      in if 2 ^ 1024 \<le> r then PosInf else if r \<le> - (2 ^ 1024) then NegInf else Fin r)"

text \<open>
  The operations on floats. An infinity plus the opposite infinity, zero times an
  infinity and an infinity over an infinity are not-a-number, and every operation on
  not-a-number is not-a-number. Python raises ZeroDivisionError for a division by zero;
  the code divides by the sum \<open>s\<close> only when \<^verbatim>\<open>s == 0\<close> is false and by the length of a
  candidate list, so the value given to that case here is never used. A comparison with
  not-a-number is false.
\<close>

fun float_add :: "py_float \<Rightarrow> py_float \<Rightarrow> py_float" where
  "float_add (Fin a) (Fin b) = to_float (a + b)"
| "float_add (Fin a) PosInf = PosInf"
| "float_add (Fin a) NegInf = NegInf"
| "float_add (Fin a) NaN = NaN"
| "float_add PosInf (Fin b) = PosInf"
| "float_add PosInf PosInf = PosInf"
| "float_add PosInf NegInf = NaN"
| "float_add PosInf NaN = NaN"
| "float_add NegInf (Fin b) = NegInf"
| "float_add NegInf PosInf = NaN"
| "float_add NegInf NegInf = NegInf"
| "float_add NegInf NaN = NaN"
| "float_add NaN y = NaN"

definition signed_inf :: "bool \<Rightarrow> py_float" where
  "signed_inf negative = (if negative then NegInf else PosInf)"

fun float_mul :: "py_float \<Rightarrow> py_float \<Rightarrow> py_float" where
  "float_mul (Fin a) (Fin b) = to_float (a * b)"
| "float_mul (Fin a) PosInf = (if a = 0 then NaN else signed_inf (a < 0))"
| "float_mul (Fin a) NegInf = (if a = 0 then NaN else signed_inf (0 < a))"
| "float_mul (Fin a) NaN = NaN"
| "float_mul PosInf (Fin b) = (if b = 0 then NaN else signed_inf (b < 0))"
| "float_mul PosInf PosInf = PosInf"
| "float_mul PosInf NegInf = NegInf"
| "float_mul PosInf NaN = NaN"
| "float_mul NegInf (Fin b) = (if b = 0 then NaN else signed_inf (0 < b))"
| "float_mul NegInf PosInf = NegInf"
| "float_mul NegInf NegInf = PosInf"
| "float_mul NegInf NaN = NaN"
| "float_mul NaN y = NaN"

fun float_div :: "py_float \<Rightarrow> py_float \<Rightarrow> py_float" where
  "float_div (Fin a) (Fin b) = (if b = 0 then NaN else to_float (a / b))"
| "float_div (Fin a) PosInf = Fin 0"
| "float_div (Fin a) NegInf = Fin 0"
| "float_div (Fin a) NaN = NaN"
| "float_div PosInf (Fin b) = (if b = 0 then NaN else signed_inf (b < 0))"
| "float_div PosInf PosInf = NaN"
| "float_div PosInf NegInf = NaN"
| "float_div PosInf NaN = NaN"
| "float_div NegInf (Fin b) = (if b = 0 then NaN else signed_inf (0 < b))"
| "float_div NegInf PosInf = NaN"
| "float_div NegInf NegInf = NaN"
| "float_div NegInf NaN = NaN"
| "float_div NaN y = NaN"

fun float_lt :: "py_float \<Rightarrow> py_float \<Rightarrow> bool" where
  "float_lt (Fin a) (Fin b) = (a < b)"
| "float_lt (Fin a) PosInf = True"
| "float_lt (Fin a) NegInf = False"
| "float_lt (Fin a) NaN = False"
| "float_lt PosInf y = False"
| "float_lt NegInf (Fin b) = True"
| "float_lt NegInf PosInf = True"
| "float_lt NegInf NegInf = False"
| "float_lt NegInf NaN = False"
| "float_lt NaN y = False"

fun float_le :: "py_float \<Rightarrow> py_float \<Rightarrow> bool" where
  "float_le (Fin a) (Fin b) = (a \<le> b)"
| "float_le (Fin a) PosInf = True"
| "float_le (Fin a) NegInf = False"
| "float_le (Fin a) NaN = False"
| "float_le PosInf (Fin b) = False"
| "float_le PosInf PosInf = True"
| "float_le PosInf NegInf = False"
| "float_le PosInf NaN = False"
| "float_le NegInf (Fin b) = True"
| "float_le NegInf PosInf = True"
| "float_le NegInf NegInf = True"
| "float_le NegInf NaN = False"
| "float_le NaN y = False"

fun float_isfinite :: "py_float \<Rightarrow> bool" where
  "float_isfinite (Fin a) = True"
| "float_isfinite PosInf = False"
| "float_isfinite NegInf = False"
| "float_isfinite NaN = False"

text \<open>
  The builtin \<^verbatim>\<open>sum\<close> of \<open>binary64\<close> is the one of CPython up to 3.11: the elements added
  to 0 from left to right.
\<close>

definition binary64 :: "py_float arith" where
  "binary64 =
     \<lparr>fzero = Fin 0,
      fadd = float_add,
      fmul = float_mul,
      fdiv = float_div,
      fratio = (\<lambda>a b. to_float (real a / real b)),
      fsum = foldl float_add (Fin 0),
      flt = float_lt, fle = float_le,
      is_zero = (\<lambda>x. x = Fin 0), isfinite = float_isfinite\<rparr>"

text \<open>
  The probability the specification gives a candidate \<open>b\<close> of the candidate list \<open>bs\<close>:
  its weight in the distribution over the sum of the candidates' weights, and an equal
  share when that sum is zero.
\<close>

definition weight_of :: "(char \<times> real) list \<Rightarrow> char \<Rightarrow> real" where
  "weight_of base_probs b = (case map_of base_probs b of None \<Rightarrow> 0 | Some p \<Rightarrow> p)"

definition candidate_probability :: "(char \<times> real) list \<Rightarrow> string \<Rightarrow> char \<Rightarrow> real" where
  "candidate_probability base_probs bs b =
     (let s = sum_list (map (weight_of base_probs) bs)
      in if s = 0 then 1 / real (length bs) else weight_of base_probs b / s)"

definition is_ambiguous :: "char \<Rightarrow> bool" where
  "is_ambiguous c = (py_upper c \<in> set ''RYSWKMBDHV'')"

text \<open>
  What a position of the result may hold, given the character \<open>ch\<close> of the input there:
  \<open>ch\<close> itself when its upper-case form is no key of the table, and otherwise one of the
  candidates of that key, lower-cased unless \<open>ch\<close> is an upper-case letter.
\<close>

definition resolved_char :: "char \<Rightarrow> char \<Rightarrow> bool" where
  "resolved_char ch c =
     (case map_of AMBIGUOUS_NUCLEOTIDES (py_upper ch) of
        None \<Rightarrow> c = ch
      | Some bs \<Rightarrow> c \<in> set (if py_isupper ch then bs else map py_lower bs))"

text \<open>A value of \<^verbatim>\<open>random.random()\<close> lies in \<open>[0, 1)\<close>.\<close>

definition unit_draw :: "real \<Rightarrow> bool" where
  "unit_draw u = (0 \<le> u \<and> u < 1)"

text \<open>
  The selection that one draw makes, in the words of inverse transform sampling.
  \<open>resolve_symbol\<close> is the pair of calls that the loop makes for a resolved character:
  the weights of the symbol, then the choice by the draw \<open>u\<close>.
  \<open>draws_before seq i\<close> is the number of calls of the random source made before position
  \<open>i\<close>, one for each earlier ambiguity symbol. \<open>recase ch b\<close> is the base \<open>b\<close> in the case of
  \<open>ch\<close>. \<open>normalised ar ws\<close> are the weights \<open>ws\<close> divided by their sum, equal shares when
  the sum is zero, in the arithmetic \<open>ar\<close>. \<open>located ar cum x j\<close> says where the scaled
  draw \<open>x\<close> lies among the running sums \<open>cum\<close>: not below the sum before index \<open>j\<close>, and
  below the sum at \<open>j\<close> unless \<open>j\<close> is the last index.
\<close>

definition resolve_symbol :: "'f arith \<Rightarrow> 'f list \<Rightarrow> char \<Rightarrow> 'f \<Rightarrow> py_error + char" where
  "resolve_symbol ar base_probs_tuple up u =
     (case weights_for_symbol ar up base_probs_tuple of
        Inl e \<Rightarrow> Inl e
      | Inr (bases, weights) \<Rightarrow> choices ar bases weights u)"

definition draws_before :: "string \<Rightarrow> nat \<Rightarrow> nat" where
  "draws_before seq i = length (filter is_ambiguous (take i seq))"

definition recase :: "char \<Rightarrow> char \<Rightarrow> char" where
  "recase ch b = (if py_isupper ch then b else py_lower b)"

definition normalised :: "'f arith \<Rightarrow> 'f list \<Rightarrow> 'f list" where
  "normalised ar ws =
     (if is_zero ar (fsum ar ws) then replicate (length ws) (fratio ar 1 (length ws))
      else map (\<lambda>w. fdiv ar w (fsum ar ws)) ws)"

definition located :: "'f arith \<Rightarrow> 'f list \<Rightarrow> 'f \<Rightarrow> nat \<Rightarrow> bool" where
  "located ar cum x j =
     ((j = 0 \<or> \<not> flt ar x (cum ! (j - 1))) \<and> (j = length cum - 1 \<or> flt ar x (cum ! j)))"

text \<open>
  The laws of arithmetic that resolving under the distribution \<open>A: 1\<close>, \<open>C: 0\<close>, \<open>G: 0\<close>,
  \<open>T: 0\<close> relies on, for a number \<open>one\<close>: the sum of 1 and 0 is 1, adding 0 and dividing
  by 1 change nothing, 1 is finite and neither zero nor at most 0, and 0 divided by 1 is
  0. Python floats have them.
\<close>

definition unit_laws :: "'f arith \<Rightarrow> 'f \<Rightarrow> bool" where
  "unit_laws ar one =
     (fsum ar [one, fzero ar] = one
      \<and> fadd ar (fzero ar) one = one \<and> fadd ar one (fzero ar) = one
      \<and> fdiv ar one one = one \<and> fdiv ar (fzero ar) one = fzero ar
      \<and> \<not> is_zero ar one \<and> \<not> fle ar one (fzero ar) \<and> isfinite ar one)"

text \<open>
  The index that \<^verbatim>\<open>random.choices\<close> returns the element of, for weights \<open>ws\<close> and the
  draw \<open>u\<close>.
\<close>

definition chosen_index :: "'f arith \<Rightarrow> 'f list \<Rightarrow> 'f \<Rightarrow> nat" where
  "chosen_index ar ws u =
     bisect_right ar (accumulate ar ws)
       (fmul ar u (fadd ar (last (accumulate ar ws)) (fzero ar))) 0 (length ws - 1)"

subsection \<open>The dataset directory index\<close>

text \<open>
  \<^verbatim>\<open>str.startswith\<close> and \<^verbatim>\<open>str.endswith\<close>; \<^verbatim>\<open>os.path.join\<close> of two components and
  \<^verbatim>\<open>os.path.basename\<close>, as \<^verbatim>\<open>posixpath\<close> defines them.
\<close>

definition startswith :: "string \<Rightarrow> string \<Rightarrow> bool" where
  "startswith s p = (take (length p) s = p)"

definition endswith :: "string \<Rightarrow> string \<Rightarrow> bool" where
  "endswith s x = (length x \<le> length s \<and> drop (length s - length x) s = x)"

definition path_join :: "string \<Rightarrow> string \<Rightarrow> string" where
  "path_join a b =
     (if startswith b ''/'' then b
      else if a = [] \<or> endswith a ''/'' then a @ b
      else a @ ''/'' @ b)"

definition basename :: "string \<Rightarrow> string" where
  "basename p = rev (takeWhile (\<lambda>c. c \<noteq> CHR ''/'') (rev p))"

text \<open>
  \<^verbatim>\<open>re.search(rf"{re.escape(prefix)}(\d+)", filename)\<close>: the escaped prefix matches
  itself only, \<^verbatim>\<open>\d+\<close> takes the longest run of digits, which must not be empty, and the
  search returns the match at the leftmost position that has one. \<open>match_here\<close> is the
  match at the start of a string, \<open>re_search\<close> tries the positions from left to right,
  the end of the string included. \<^verbatim>\<open>int\<close> reads the group as a decimal number.
\<close>

definition is_digit :: "char \<Rightarrow> bool" where
  "is_digit c = (c \<in> set ''0123456789'')"

definition digit_value :: "char \<Rightarrow> nat" where
  "digit_value c = length (takeWhile (\<lambda>d. d \<noteq> c) ''0123456789'')"

definition int_of_digits :: "string \<Rightarrow> nat" where
  "int_of_digits ds = foldl (\<lambda>n d. 10 * n + digit_value d) 0 ds"

definition match_here :: "string \<Rightarrow> string \<Rightarrow> string option" where
  "match_here prefix s =
     (if startswith s prefix
      then (let ds = takeWhile is_digit (drop (length prefix) s)
            in if ds = [] then None else Some ds)
      else None)"

fun re_search :: "string \<Rightarrow> string \<Rightarrow> string option" where
  "re_search prefix [] = match_here prefix []"
| "re_search prefix (c # cs) =
     (case match_here prefix (c # cs) of
        Some ds \<Rightarrow> Some ds
      | None \<Rightarrow> re_search prefix cs)"

definition extract_number :: "string \<Rightarrow> string \<Rightarrow> int" where
  "extract_number filename prefix =
     (case re_search prefix filename of Some ds \<Rightarrow> int (int_of_digits ds) | None \<Rightarrow> - 1)"

text \<open>
  \<^verbatim>\<open>FastaDataset.__init__\<close>. The names that \<^verbatim>\<open>os.listdir\<close> returns are the argument
  \<open>listing\<close>. \<^verbatim>\<open>list.sort\<close> with a key is a stable sort, as \<open>sort_key\<close> is.
\<close>

record FastaDataset =
  path :: string
  prefix :: string
  name :: string
  fasta_paths :: "string list"

definition kept_names :: "string \<Rightarrow> string list \<Rightarrow> string list" where
  "kept_names pre listing = filter (\<lambda>f. startswith f pre \<and> endswith f ''.fasta'') listing"

definition file_number :: "string \<Rightarrow> string \<Rightarrow> int" where
  "file_number pre f = extract_number (basename f) pre"

definition FastaDataset_init :: "string \<Rightarrow> string \<Rightarrow> string list \<Rightarrow> FastaDataset" where
  "FastaDataset_init dir pre listing =
     \<lparr>path = dir, prefix = pre, name = basename dir,
      fasta_paths = sort_key (file_number pre) (map (path_join dir) (kept_names pre listing))\<rparr>"

subsection \<open>FASTA text\<close>

text \<open>
  The characters below code point 256 for which \<^verbatim>\<open>str.isspace\<close> holds;
  \<^verbatim>\<open>str.strip()\<close> removes them from both ends. \<^verbatim>\<open>s.replace(c, "")\<close> for a single
  character \<open>c\<close> deletes its occurrences.
\<close>

abbreviation LF :: char where "LF \<equiv> CHR 0x0A"
abbreviation CR :: char where "CR \<equiv> CHR 0x0D"

definition py_whitespace :: string where
  "py_whitespace =
     [CHR 0x09, CHR 0x0A, CHR 0x0B, CHR 0x0C, CHR 0x0D, CHR 0x1C, CHR 0x1D, CHR 0x1E,
      CHR 0x1F, CHR 0x20, CHR 0x85, CHR 0xA0]"

definition py_isspace :: "char \<Rightarrow> bool" where
  "py_isspace c = (c \<in> set py_whitespace)"

definition strip :: "string \<Rightarrow> string" where
  "strip s = rev (dropWhile py_isspace (rev (dropWhile py_isspace s)))"

definition remove_char :: "char \<Rightarrow> string \<Rightarrow> string" where
  "remove_char c s = filter (\<lambda>x. x \<noteq> c) s"

text \<open>
  A file opened for reading in text mode translates the line ends \<open>CR LF\<close> and \<open>CR\<close> to
  \<open>LF\<close>, and iterating over it yields the lines, each with its \<open>LF\<close> (the last one may
  lack it). \<open>file_lines\<close> gives the lines after \<^verbatim>\<open>line.rstrip("\n")\<close>, that is, without
  their terminator.
\<close>

fun universal_newlines :: "string \<Rightarrow> string" where
  "universal_newlines [] = []"
| "universal_newlines [c] = [if c = CR then LF else c]"
| "universal_newlines (c # d # cs) =
     (if c = CR \<and> d = LF then LF # universal_newlines cs
      else if c = CR then LF # universal_newlines (d # cs)
      else c # universal_newlines (d # cs))"

fun file_lines :: "string \<Rightarrow> string list" where
  "file_lines [] = []"
| "file_lines (c # cs) =
     (if c = LF then [] # file_lines cs
      else (case file_lines cs of [] \<Rightarrow> [[c]] | l # ls \<Rightarrow> (c # l) # ls))"

text \<open>
  \<^verbatim>\<open>read_fasta\<close>. The state of the loop is the triple of \<^verbatim>\<open>records\<close>, \<^verbatim>\<open>header\<close>
  (\<open>None\<close> as in the source) and \<^verbatim>\<open>seq_lines\<close>. \<open>flush\<close> is the code that closes the record
  in progress, which the source has twice: at a header line and after the loop. The
  argument of the model is the decoded content of the file.
\<close>

type_synonym reader_state = "fasta_record list \<times> string option \<times> string list"

definition flush :: "reader_state \<Rightarrow> fasta_record list" where
  "flush st =
     (case st of (records, header, seq_lines) \<Rightarrow>
        (case header of
           None \<Rightarrow> records
         | Some h \<Rightarrow>
             records @ [(h, remove_char CHR 0x09 (remove_char CHR 0x20 (concat seq_lines)))]))"

definition read_line :: "reader_state \<Rightarrow> string \<Rightarrow> reader_state" where
  "read_line st line =
     (case st of (records, header, seq_lines) \<Rightarrow>
        if line = [] then st
        else if startswith line ''>'' then (flush st, Some (strip (tl line)), [])
        else (records, header, seq_lines @ [strip line]))"

definition read_fasta :: "string \<Rightarrow> fasta_record list" where
  "read_fasta text =
     flush (foldl read_line ([], None, []) (file_lines (universal_newlines text)))"

text \<open>
  \<^verbatim>\<open>write_fasta\<close> returns the text it writes; the file stores each \<open>LF\<close> as the line
  end of the platform, which reading translates back. \<^verbatim>\<open>range(0, len(s), width)\<close> raises
  ValueError for \<open>width = 0\<close> and is empty for a negative width; \<open>py_range n step\<close> lists
  it for a positive step. \<^verbatim>\<open>s[i:i + width]\<close> is \<open>take width (drop i s)\<close>.
\<close>

definition py_range :: "nat \<Rightarrow> nat \<Rightarrow> nat list" where
  "py_range n step = map (\<lambda>k. k * step) [0..<(n + step - 1) div step]"

definition wrap :: "string \<Rightarrow> nat \<Rightarrow> string list" where
  "wrap s width = map (\<lambda>i. take width (drop i s)) (py_range (length s) width)"

definition record_lines :: "nat \<Rightarrow> fasta_record \<Rightarrow> string list" where
  "record_lines width r = (case r of (h, s) \<Rightarrow> (''>'' @ h) # wrap s width)"

definition write_lines :: "string list \<Rightarrow> string" where
  "write_lines ls = concat (map (\<lambda>l. l @ [LF]) ls)"

definition write_fasta :: "fasta_record list \<Rightarrow> int \<Rightarrow> py_error + string" where
  "write_fasta records width =
     (if records \<noteq> [] \<and> width = 0 then Inl ValueError
      else if width < 0 then Inr (write_lines (map (\<lambda>(h, s). ''>'' @ h) records))
      else Inr (write_lines (concat (map (record_lines (nat width)) records))))"

text \<open>Writing a collection and reading the text back.\<close>

definition round_trip :: "fasta_record list \<Rightarrow> int \<Rightarrow> py_error + fasta_record list" where
  "round_trip records width =
     (case write_fasta records width of Inl e \<Rightarrow> Inl e | Inr text \<Rightarrow> Inr (read_fasta text))"

text \<open>
  The records that the parser returns as they are: a header without line ends and
  without white space at its ends, and a sequence without white space of which no
  output line begins with the header delimiter.
\<close>

definition clean_header :: "string \<Rightarrow> bool" where
  "clean_header h = (strip h = h \<and> LF \<notin> set h \<and> CR \<notin> set h)"

definition clean_sequence :: "nat \<Rightarrow> string \<Rightarrow> bool" where
  "clean_sequence width s =
     (list_all (\<lambda>c. \<not> py_isspace c) s \<and> list_all (\<lambda>l. \<not> startswith l ''>'') (wrap s width))"

definition clean_record :: "nat \<Rightarrow> fasta_record \<Rightarrow> bool" where
  "clean_record width r = (clean_header (fst r) \<and> clean_sequence width (snd r))"

text \<open>
  The records of the round-trip property as the specification words it: no line feed in
  header or sequence, and no white space at the ends of the sequence.
\<close>

definition newline_free_record :: "fasta_record \<Rightarrow> bool" where
  "newline_free_record r = (LF \<notin> set (fst r) \<and> LF \<notin> set (snd r) \<and> strip (snd r) = snd r)"

section \<open>Duplicate removal: proofs\<close>

lemma unique_step_keys:
  "fst ` set (unique_step u r) = insert (snd r) (fst ` set u)"
  by (cases r) (auto simp: unique_step_def map_of_eq_None_iff image_iff)

lemma unique_fold_snoc:
  "foldl unique_step [] (rs @ [r]) = unique_step (foldl unique_step [] rs) r"
  by simp

lemma unique_fold_keys: "fst ` set (foldl unique_step [] rs) = snd ` set rs"
proof (induction rs rule: rev_induct)
  case Nil
  show ?case by simp
next
  case (snoc r rs)
  then show ?case by (simp add: unique_step_keys)
qed

lemma make_unique_snoc:
  "make_unique_records (rs @ [r]) =
     (if snd r \<in> snd ` set rs then make_unique_records rs else make_unique_records rs @ [r])"
proof -
  have "map_of (foldl unique_step [] rs) (snd r) = None \<longleftrightarrow> snd r \<notin> snd ` set rs"
    by (simp add: map_of_eq_None_iff unique_fold_keys)
  then show ?thesis
    by (cases r) (auto simp: make_unique_records_def unique_step_def)
qed

lemma make_unique_Nil: "make_unique_records [] = []"
  by (simp add: make_unique_records_def)

lemma make_unique_seqs: "snd ` set (make_unique_records rs) = snd ` set rs"
  by (induction rs rule: rev_induct) (auto simp: make_unique_Nil make_unique_snoc)

lemma make_unique_distinct: "distinct (map snd (make_unique_records rs))"
proof (induction rs rule: rev_induct)
  case Nil
  show ?case by (simp add: make_unique_Nil)
next
  case (snoc r rs)
  show ?case
  proof (cases "snd r \<in> snd ` set rs")
    case True
    with snoc show ?thesis by (simp add: make_unique_snoc)
  next
    case False
    then have "snd r \<notin> snd ` set (make_unique_records rs)"
      by (simp add: make_unique_seqs)
    with snoc False show ?thesis by (simp add: make_unique_snoc)
  qed
qed

lemma make_unique_id: "distinct (map snd rs) \<Longrightarrow> make_unique_records rs = rs"
proof (induction rs rule: rev_induct)
  case Nil
  show ?case by (simp add: make_unique_Nil)
next
  case (snoc r rs)
  then have "snd r \<notin> snd ` set rs" and "make_unique_records rs = rs"
    by auto
  then show ?case by (simp add: make_unique_snoc)
qed

lemma first_occurrence_snoc_old:
  "i < length rs \<Longrightarrow> first_occurrence (rs @ [r]) i = first_occurrence rs i"
  by (simp add: first_occurrence_def nth_append)

lemma first_occurrence_snoc_new:
  "first_occurrence (rs @ [r]) (length rs) \<longleftrightarrow> snd r \<notin> snd ` set rs"
  by (simp add: first_occurrence_def)

lemma make_unique_by_index:
  "make_unique_records rs =
     map (\<lambda>i. rs ! i) (filter (first_occurrence rs) [0..<length rs])"
proof (induction rs rule: rev_induct)
  case Nil
  show ?case by (simp add: make_unique_Nil)
next
  case (snoc r rs)
  have old: "map (\<lambda>i. (rs @ [r]) ! i) (filter (first_occurrence (rs @ [r])) [0..<length rs])
               = map (\<lambda>i. rs ! i) (filter (first_occurrence rs) [0..<length rs])"
  proof -
    have "filter (first_occurrence (rs @ [r])) [0..<length rs]
            = filter (first_occurrence rs) [0..<length rs]"
      by (rule filter_cong) (simp_all add: first_occurrence_snoc_old)
    moreover have "map (\<lambda>i. (rs @ [r]) ! i) (filter (first_occurrence rs) [0..<length rs])
            = map (\<lambda>i. rs ! i) (filter (first_occurrence rs) [0..<length rs])"
      by (rule map_cong) (simp_all add: nth_append)
    ultimately show ?thesis by simp
  qed
  show ?case
    using snoc old
    by (simp add: make_unique_snoc first_occurrence_snoc_new)
qed

subsection \<open>Counting\<close>

lemma counter_add_map_of:
  "map_of (counter_add m x) =
     (map_of m)(x \<mapsto> (case map_of m x of None \<Rightarrow> 1 | Some c \<Rightarrow> Suc c))"
  by (induction m x rule: counter_add.induct) (auto simp: fun_eq_iff)

lemma counter_add_keys: "fst ` set (counter_add m x) = insert x (fst ` set m)"
  by (induction m x rule: counter_add.induct) auto

lemma counter_add_distinct:
  "distinct (map fst m) \<Longrightarrow> distinct (map fst (counter_add m x))"
proof (induction m x rule: counter_add.induct)
  case (1 x)
  show ?case by simp
next
  case (2 k c kcs x)
  have "k \<noteq> x \<Longrightarrow> k \<notin> fst ` set (counter_add kcs x)"
    using 2 by (simp add: counter_add_keys)
  with 2 show ?case by auto
qed

lemma Counter_distinct: "distinct (map fst (Counter xs))"
  unfolding Counter_def
  by (induction xs rule: rev_induct) (simp_all add: counter_add_distinct)

lemma Counter_map_of:
  "map_of (Counter xs) x = (if x \<in> set xs then Some (count_list xs x) else None)"
  unfolding Counter_def
proof (induction xs rule: rev_induct)
  case Nil
  show ?case by simp
next
  case (snoc y ys)
  then show ?case
    by (auto simp: counter_add_map_of count_list_0_iff)
qed

lemma map_of_filter_value:
  "distinct (map fst m) \<Longrightarrow>
   map_of (filter (\<lambda>(k, v). P v) m) k =
     (case map_of m k of None \<Rightarrow> None | Some v \<Rightarrow> if P v then Some v else None)"
proof (induction m)
  case Nil
  show ?case by simp
next
  case (Cons kv m)
  obtain k' v' where kv: "kv = (k', v')" by (cases kv)
  show ?case
  proof (cases "k' = k")
    case True
    with Cons.prems kv have "map_of m k = None"
      by (auto simp: map_of_eq_None_iff)
    with Cons kv True show ?thesis by simp
  next
    case False
    with Cons kv show ?thesis by simp
  qed
qed

lemma count_list_distinct:
  "distinct xs \<Longrightarrow> count_list xs x \<le> 1"
  by (induction xs) (auto simp: count_list_0_iff)

lemma find_duplicates_map_of:
  "map_of (find_duplicate_sequences rs) s =
     (if 2 \<le> count_list (map snd rs) s then Some (count_list (map snd rs) s) else None)"
proof -
  have "count_list (map snd rs) s = 0" if "s \<notin> snd ` set rs"
    using that by (simp add: count_list_0_iff)
  then show ?thesis
    by (auto simp: find_duplicate_sequences_def map_of_filter_value [OF Counter_distinct]
          Counter_map_of)
qed

lemma find_duplicates_unique: "find_duplicate_sequences (make_unique_records rs) = []"
proof -
  let ?seqs = "map snd (make_unique_records rs)"
  have "\<not> 1 < c" if "(s, c) \<in> set (Counter ?seqs)" for s c
  proof -
    from that have "map_of (Counter ?seqs) s = Some c"
      by (simp add: Counter_distinct)
    then have "c = count_list ?seqs s"
      by (simp add: Counter_map_of split: if_splits)
    moreover have "count_list ?seqs s \<le> 1"
      by (rule count_list_distinct) (rule make_unique_distinct)
    ultimately show ?thesis by simp
  qed
  then show ?thesis
    by (auto simp: find_duplicate_sequences_def filter_empty_conv)
qed

section \<open>Claims on duplicate removal\<close>

text \<open>
  C6. \<open>make_unique_records\<close> keeps exactly the records that are the first occurrence of
  their sequence string (compared with string equality), each with its own header, in
  the order of the input; later records of a sequence already met are dropped.
  On \<open>[(h1, AAA), (h2, CCC), (h3, AAA)]\<close> it returns \<open>[(h1, AAA), (h2, CCC)]\<close>.
\<close>

theorem make_unique_records_first_occurrences:
  "make_unique_records rs = map (\<lambda>i. rs ! i) (filter (first_occurrence rs) [0..<length rs])
   \<and> make_unique_records [(''h1'', ''AAA''), (''h2'', ''CCC''), (''h3'', ''AAA'')]
       = [(''h1'', ''AAA''), (''h2'', ''CCC'')]"
proof
  show "make_unique_records rs = map (\<lambda>i. rs ! i) (filter (first_occurrence rs) [0..<length rs])"
    by (rule make_unique_by_index)
  show "make_unique_records [(''h1'', ''AAA''), (''h2'', ''CCC''), (''h3'', ''AAA'')]
          = [(''h1'', ''AAA''), (''h2'', ''CCC'')]"
    by (simp add: make_unique_records_def unique_step_def)
qed

text \<open>
  C7. Removing duplicates is idempotent: a second pass over the result of
  \<open>make_unique_records\<close> changes nothing.
\<close>

theorem make_unique_records_idempotent:
  "make_unique_records (make_unique_records rs) = make_unique_records rs"
  by (rule make_unique_id) (rule make_unique_distinct)

lemma make_unique_subset: "set (make_unique_records rs) \<subseteq> set rs"
  by (induction rs rule: rev_induct) (auto simp: make_unique_Nil make_unique_snoc)

lemma make_unique_count:
  "count_list (map snd (make_unique_records rs)) s = (if s \<in> snd ` set rs then 1 else 0)"
proof (cases "s \<in> snd ` set rs")
  case True
  then have "s \<in> set (map snd (make_unique_records rs))"
    using make_unique_seqs [of rs] by simp
  then have "count_list (map snd (make_unique_records rs)) s \<noteq> 0"
    by (simp add: count_list_0_iff)
  moreover have "count_list (map snd (make_unique_records rs)) s \<le> 1"
    by (rule count_list_distinct) (rule make_unique_distinct)
  ultimately show ?thesis using True by simp
next
  case False
  then have "s \<notin> set (map snd (make_unique_records rs))"
    using make_unique_seqs [of rs] by simp
  with False show ?thesis by (simp add: count_list_0_iff)
qed

text \<open>
  C10. Duplicate removal keeps records of the input only, and it leaves every sequence
  of the input with occurrence count 1 and brings in no other sequence; so after it
  \<open>find_duplicate_sequences\<close> reports nothing. On any record list
  \<open>find_duplicate_sequences\<close> reports each sequence once, and a sequence is reported
  exactly when it occurs at least twice, paired with its number of occurrences; a
  sequence that occurs once is never reported. The function is pure: its argument is a
  value, which it cannot modify.
\<close>

theorem find_duplicate_sequences_exact:
  "find_duplicate_sequences (make_unique_records rs) = []
   \<and> set (make_unique_records rs) \<subseteq> set rs
   \<and> snd ` set (make_unique_records rs) = snd ` set rs
   \<and> distinct (map snd (make_unique_records rs))
   \<and> count_list (map snd (make_unique_records rs)) s = (if s \<in> snd ` set rs then 1 else 0)
   \<and> distinct (map fst (find_duplicate_sequences rs))
   \<and> map_of (find_duplicate_sequences rs) s =
       (if 2 \<le> count_list (map snd rs) s then Some (count_list (map snd rs) s) else None)"
proof -
  have "distinct (map fst (find_duplicate_sequences rs))"
    by (simp add: find_duplicate_sequences_def distinct_map_filter Counter_distinct)
  then show ?thesis
    using make_unique_subset [of rs] make_unique_seqs [of rs] make_unique_distinct [of rs]
      make_unique_count [of rs s]
    by (simp add: find_duplicates_unique find_duplicates_map_of)
qed

section \<open>Cut lengths: claims\<close>

text \<open>
  C2, as stated, at \<open>orig_len = 5\<close>, \<open>K = 0\<close>, \<open>H = 0\<close>: the bounds are inconsistent
  (\<open>max 1 (K - H) = 1\<close> exceeds \<open>min K orig_len = 0\<close>), the function clamps and the
  only value it can return is 0, which is below 1.
\<close>

theorem random_cut_length_counterexample:
  "random_cut_length 5 0 0 = Inr {0} \<and> \<not> cut_length_ok 5 0 0"
  by (simp add: random_cut_length_def randint_def cut_length_ok_def)

text \<open>
  C2, amended. For all integers \<open>orig_len\<close>, \<open>K\<close>, \<open>H\<close> the function returns a value and
  raises no error: the range handed to \<open>randint\<close> is never empty. It returns \<open>orig_len\<close>
  whenever \<open>orig_len \<le> K\<close>; when the derived bounds are inconsistent it returns
  \<open>min K orig_len\<close>. Every returned value is at most \<open>orig_len\<close> and at most \<open>K\<close>; it is
  not negative when \<open>orig_len\<close> and \<open>K\<close> are not, and it is at least 1 when \<open>orig_len\<close>
  and \<open>K\<close> are at least 1.
\<close>

theorem random_cut_length_range:
  "\<exists>S. random_cut_length orig_len K H = Inr S \<and> S \<noteq> {}
     \<and> (orig_len \<le> K \<longrightarrow> S = {orig_len})
     \<and> (K < orig_len \<and> min K orig_len < max 1 (K - H) \<longrightarrow> S = {min K orig_len})
     \<and> (\<forall>v \<in> S. v \<le> orig_len \<and> v \<le> K
           \<and> (0 \<le> orig_len \<and> 0 \<le> K \<longrightarrow> 0 \<le> v)
           \<and> (1 \<le> orig_len \<and> 1 \<le> K \<longrightarrow> cut_length_ok orig_len K v))"
  by (auto simp: random_cut_length_def randint_def cut_length_ok_def Let_def)

theorem random_cut_length_range_witness:
  "random_cut_length 200 100 10 = Inr {90..100} \<and> cut_length_ok 200 100 95
   \<and> random_cut_length 95 100 10 = Inr {95} \<and> cut_length_ok 95 100 95
   \<and> random_cut_length 5 0 3 = Inr {0}"
  using random_cut_length_range [of 200 100 10] random_cut_length_range [of 95 100 10]
    random_cut_length_range [of 5 0 3]
  by (simp add: random_cut_length_def randint_def cut_length_ok_def)

section \<open>Base composition: proofs and claim\<close>










section \<open>Ambiguity resolution: proofs\<close>

subsection \<open>The binary search\<close>

lemma bisect_right_done: "bisect_right ar a x lo lo = lo"
  by (subst bisect_right.simps) simp

lemma bisect_right_one:
  "bisect_right ar a x 0 (Suc 0) = (if flt ar x (a ! 0) then 0 else 1)"
  by (subst bisect_right.simps) (simp add: bisect_right_done)

lemma bisect_right_two:
  "bisect_right ar a x 0 (Suc (Suc 0)) =
     (if flt ar x (a ! Suc 0) then (if flt ar x (a ! 0) then 0 else Suc 0) else Suc (Suc 0))"
  by (subst bisect_right.simps) (simp add: bisect_right_done bisect_right_one)

lemma bisect_right_bounds:
  "lo \<le> hi \<Longrightarrow> lo \<le> bisect_right ar a x lo hi \<and> bisect_right ar a x lo hi \<le> hi"
proof (induction ar a x lo hi rule: bisect_right.induct)
  case (1 ar a x lo hi)
  show ?case
  proof (cases "lo < hi")
    case False
    with 1 show ?thesis by (subst (1 2) bisect_right.simps) simp
  next
    case True
    define mid where "mid = (lo + hi) div 2"
    have m: "lo \<le> mid" "mid < hi" using True by (simp_all add: mid_def)
    show ?thesis
    proof (cases "flt ar x (a ! mid)")
      case below: True
      with 1(1) [OF \<open>lo < hi\<close> mid_def] m
      have "lo \<le> bisect_right ar a x lo mid \<and> bisect_right ar a x lo mid \<le> mid"
        by (simp add: mid_def)
      moreover have "bisect_right ar a x lo hi = bisect_right ar a x lo mid"
        using below \<open>lo < hi\<close> by (subst bisect_right.simps) (simp add: mid_def)
      ultimately show ?thesis using m by simp
    next
      case above: False
      with 1(2) [OF \<open>lo < hi\<close> mid_def] m
      have "mid + 1 \<le> bisect_right ar a x (mid + 1) hi \<and> bisect_right ar a x (mid + 1) hi \<le> hi"
        by (simp add: mid_def)
      moreover have "bisect_right ar a x lo hi = bisect_right ar a x (mid + 1) hi"
        using above \<open>lo < hi\<close> by (subst bisect_right.simps) (simp add: mid_def)
      ultimately show ?thesis using m by simp
    qed
  qed
qed

lemma located_two:
  "length cum = 2 \<Longrightarrow> located ar cum x (bisect_right ar cum x 0 (length cum - 1))"
  by (simp add: located_def bisect_right_one)

lemma located_three:
  "length cum = 3 \<Longrightarrow> located ar cum x (bisect_right ar cum x 0 (length cum - 1))"
  by (simp add: located_def bisect_right_two numeral_3_eq_3)

subsection \<open>Running sums and the choice\<close>

lemma accumulate_from_length: "length (accumulate_from ar r ws) = length ws"
  by (induction ws arbitrary: r) simp_all

lemma accumulate_length: "length (accumulate ar ws) = length ws"
  by (simp add: accumulate_def accumulate_from_length split: list.splits)

lemma chosen_index_less: "ws \<noteq> [] \<Longrightarrow> chosen_index ar ws u < length ws"
proof -
  assume "ws \<noteq> []"
  have "chosen_index ar ws u \<le> length ws - 1"
    unfolding chosen_index_def using bisect_right_bounds [of 0 "length ws - 1"] by simp
  with \<open>ws \<noteq> []\<close> show ?thesis by (cases ws) simp_all
qed

lemma choices_cases:
  assumes "length ws = length bs" and "bs \<noteq> []"
  shows "choices ar bs ws u =
           (if fle ar (fadd ar (last (accumulate ar ws)) (fzero ar)) (fzero ar)
               \<or> \<not> isfinite ar (fadd ar (last (accumulate ar ws)) (fzero ar))
            then Inl ValueError else Inr (bs ! chosen_index ar ws u))"
proof -
  from assms have "accumulate ar ws \<noteq> []"
    using accumulate_length [of ar ws] by auto
  with assms show ?thesis
    by (simp add: choices_def Let_def accumulate_length chosen_index_def)
qed

lemma chosen_index_located:
  assumes "length ws = 2 \<or> length ws = 3"
  shows "located ar (accumulate ar ws)
           (fmul ar u (fadd ar (last (accumulate ar ws)) (fzero ar))) (chosen_index ar ws u)"
  using assms located_two [of "accumulate ar ws"] located_three [of "accumulate ar ws"]
  by (auto simp: chosen_index_def accumulate_length)

subsection \<open>Dictionaries and the table\<close>

lemma lookup_all_iff:
  "lookup_all d ks = Inr vs \<longleftrightarrow> list_all2 (\<lambda>k v. map_of d k = Some v) ks vs"
proof (induction ks arbitrary: vs)
  case Nil
  show ?case by auto
next
  case (Cons k ks)
  show ?case
    by (auto simp: lookup_def list_all2_Cons1 Cons.IH [symmetric]
          split: option.splits sum.splits)
qed

lemma lookup_all_four:
  assumes "lookup_all d ''ACGT'' = Inr t"
  obtains a c g d' where "t = [a, c, g, d']"
    and "map_of d CHR ''A'' = Some a" and "map_of d CHR ''C'' = Some c"
    and "map_of d CHR ''G'' = Some g" and "map_of d CHR ''T'' = Some d'"
  using assms unfolding lookup_all_iff by (auto simp: list_all2_Cons1)

lemma table_keys: "fst ` set AMBIGUOUS_NUCLEOTIDES = set ''RYSWKMBDHV''"
  by (simp add: AMBIGUOUS_NUCLEOTIDES_def)

lemma is_ambiguous_table:
  "is_ambiguous ch \<longleftrightarrow> map_of AMBIGUOUS_NUCLEOTIDES (py_upper ch) \<noteq> None"
  unfolding is_ambiguous_def map_of_eq_None_iff table_keys by simp

lemma canonical_case:
  "b \<in> set ''ACGT'' \<Longrightarrow>
   py_upper b = b \<and> py_upper (py_lower b) = b \<and> py_lower b \<in> set ''acgt''"
proof -
  have "py_upper CHR ''A'' = CHR ''A''" "py_lower CHR ''A'' = CHR ''a''"
       "py_upper CHR ''a'' = CHR ''A''" "py_upper CHR ''C'' = CHR ''C''"
       "py_lower CHR ''C'' = CHR ''c''" "py_upper CHR ''c'' = CHR ''C''"
       "py_upper CHR ''G'' = CHR ''G''" "py_lower CHR ''G'' = CHR ''g''"
       "py_upper CHR ''g'' = CHR ''G''" "py_upper CHR ''T'' = CHR ''T''"
       "py_lower CHR ''T'' = CHR ''t''" "py_upper CHR ''t'' = CHR ''T''"
    by (simp_all add: py_upper_def py_lower_def ascii_lowercase_def ascii_uppercase_def)
  then show "b \<in> set ''ACGT'' \<Longrightarrow> ?thesis" by auto
qed

lemma table_candidates:
  "map_of AMBIGUOUS_NUCLEOTIDES symb = Some bs \<Longrightarrow> set bs \<subseteq> set ''ACGT''"
  by (drule map_of_SomeD) (auto simp: AMBIGUOUS_NUCLEOTIDES_def)

lemma table_shape:
  assumes "map_of AMBIGUOUS_NUCLEOTIDES symb = Some bs"
  shows "(length bs = 2 \<or> length bs = 3) \<and> distinct bs"
  using map_of_SomeD [OF assms] by (auto simp: AMBIGUOUS_NUCLEOTIDES_def)

lemma recase_inj:
  assumes "b \<in> set ''ACGT''" and "b' \<in> set ''ACGT''"
  shows "recase ch b = recase ch b' \<longleftrightarrow> b = b'"
  using canonical_case [OF assms(1)] canonical_case [OF assms(2)]
  by (cases "py_isupper ch") (auto simp: recase_def)

subsection \<open>The weights of a symbol\<close>

lemma normalised_length: "length (normalised ar ws) = length ws"
  by (simp add: normalised_def)

lemma zip_lookup:
  assumes "lookup_all probs ''ACGT'' = Inr t" and "b \<in> set ''ACGT''"
  shows "map_of (zip ''ACGT'' t) b = map_of probs b \<and> map_of probs b \<noteq> None"
proof -
  from assms(1) obtain a c g d where "t = [a, c, g, d]"
    and "map_of probs CHR ''A'' = Some a" and "map_of probs CHR ''C'' = Some c"
    and "map_of probs CHR ''G'' = Some g" and "map_of probs CHR ''T'' = Some d"
    by (rule lookup_all_four)
  with assms(2) show ?thesis by auto
qed

lemma restricted_weights:
  assumes "lookup_all probs ''ACGT'' = Inr t" and "set bs \<subseteq> set ''ACGT''"
  shows "\<exists>rw. lookup_all (zip ''ACGT'' t) bs = Inr rw
           \<and> list_all2 (\<lambda>b w. map_of probs b = Some w) bs rw"
proof -
  let ?rw = "map (\<lambda>b. the (map_of probs b)) bs"
  have "map_of (zip ''ACGT'' t) b = Some (the (map_of probs b))
        \<and> map_of probs b = Some (the (map_of probs b))" if "b \<in> set bs" for b
    using zip_lookup [OF assms(1), of b] that assms(2) by auto
  then have "list_all2 (\<lambda>b w. map_of (zip ''ACGT'' t) b = Some w) bs ?rw"
    and "list_all2 (\<lambda>b w. map_of probs b = Some w) bs ?rw"
    by (simp_all add: list_all2_conv_all_nth)
  then show ?thesis
    unfolding lookup_all_iff by blast
qed

lemma weights_for_symbol_eq:
  assumes "map_of AMBIGUOUS_NUCLEOTIDES symb = Some bs"
    and "lookup_all probs ''ACGT'' = Inr t"
  shows "\<exists>rw. list_all2 (\<lambda>b w. map_of probs b = Some w) bs rw
           \<and> weights_for_symbol ar symb t = Inr (bs, normalised ar rw)"
proof -
  from restricted_weights [OF assms(2) table_candidates [OF assms(1)]] obtain rw
    where rw: "lookup_all (zip ''ACGT'' t) bs = Inr rw"
      "list_all2 (\<lambda>b w. map_of probs b = Some w) bs rw" by blast
  then have "length rw = length bs"
    by (auto dest: list_all2_lengthD)
  with assms(1) rw(1) have "weights_for_symbol ar symb t = Inr (bs, normalised ar rw)"
    by (simp add: weights_for_symbol_def lookup_def Let_def normalised_def)
  with rw(2) show ?thesis by blast
qed

lemma resolve_symbol_eq:
  assumes "map_of AMBIGUOUS_NUCLEOTIDES symb = Some bs"
    and "lookup_all probs ''ACGT'' = Inr t"
  shows "\<exists>rw. list_all2 (\<lambda>b w. map_of probs b = Some w) bs rw
           \<and> resolve_symbol ar t symb u = choices ar bs (normalised ar rw) u"
  using weights_for_symbol_eq [OF assms, of ar]
  by (auto simp: resolve_symbol_def)

lemma resolve_symbol_outcome:
  assumes "map_of AMBIGUOUS_NUCLEOTIDES symb = Some bs"
    and "lookup_all probs ''ACGT'' = Inr t"
  shows "resolve_symbol ar t symb u = Inl ValueError
         \<or> (\<exists>j < length bs. resolve_symbol ar t symb u = Inr (bs ! j))"
proof -
  from resolve_symbol_eq [OF assms, of ar u] obtain rw
    where rw: "list_all2 (\<lambda>b w. map_of probs b = Some w) bs rw"
      and eq: "resolve_symbol ar t symb u = choices ar bs (normalised ar rw) u" by blast
  from rw have len: "length (normalised ar rw) = length bs"
    by (simp add: normalised_length list_all2_lengthD)
  from table_shape [OF assms(1)] have ne: "bs \<noteq> []" by auto
  then have "normalised ar rw \<noteq> []" using len by auto
  from chosen_index_less [OF this, of ar u] len
  have "chosen_index ar (normalised ar rw) u < length bs" by simp
  then show ?thesis
    unfolding eq choices_cases [OF len ne] by auto
qed

subsection \<open>The loop\<close>

lemma resolve_chars_plain:
  assumes "map_of AMBIGUOUS_NUCLEOTIDES (py_upper ch) = None"
  shows "resolve_chars ar (ch # seq) t rng k =
           (case resolve_chars ar seq t rng k of
              Inl e \<Rightarrow> Inl e
            | Inr out \<Rightarrow> Inr (ch # out))"
  using assms by simp

lemma resolve_chars_symbol:
  assumes "map_of AMBIGUOUS_NUCLEOTIDES (py_upper ch) = Some bs"
  shows "resolve_chars ar (ch # seq) t rng k =
           (case resolve_symbol ar t (py_upper ch) (rng k) of
              Inl e \<Rightarrow> Inl e
            | Inr chosen \<Rightarrow>
                (case resolve_chars ar seq t rng (Suc k) of
                   Inl e \<Rightarrow> Inl e
                 | Inr out \<Rightarrow> Inr (recase ch chosen # out)))"
  using assms by (simp add: resolve_symbol_def recase_def split: sum.splits prod.splits)

lemma resolved_char_plain:
  "map_of AMBIGUOUS_NUCLEOTIDES (py_upper ch) = None \<Longrightarrow> resolved_char ch ch"
  by (simp add: resolved_char_def)

lemma resolved_char_pick:
  "map_of AMBIGUOUS_NUCLEOTIDES (py_upper ch) = Some bs \<Longrightarrow> j < length bs \<Longrightarrow>
   resolved_char ch (recase ch (bs ! j))"
  by (simp add: resolved_char_def recase_def)

lemma resolve_chars_sound:
  assumes "lookup_all probs ''ACGT'' = Inr t"
  shows "case resolve_chars ar seq t rng k of
           Inr out \<Rightarrow> list_all2 resolved_char seq out
         | Inl e \<Rightarrow> e = ValueError \<and> (\<exists>c \<in> set seq. is_ambiguous c)"
proof (induction seq arbitrary: k)
  case Nil
  show ?case by simp
next
  case (Cons ch seq)
  show ?case
  proof (cases "map_of AMBIGUOUS_NUCLEOTIDES (py_upper ch)")
    case None
    with Cons [of k] show ?thesis
      by (simp only: resolve_chars_plain [OF None])
         (auto simp: resolved_char_plain split: sum.splits)
  next
    case (Some bs)
    then have amb: "is_ambiguous ch" by (simp add: is_ambiguous_table)
    from resolve_symbol_outcome [OF Some assms, of ar "rng k"]
    show ?thesis
    proof
      assume "resolve_symbol ar t (py_upper ch) (rng k) = Inl ValueError"
      with amb show ?thesis
        by (simp add: resolve_chars_symbol [OF Some] del: resolve_chars.simps)
    next
      assume "\<exists>j < length bs. resolve_symbol ar t (py_upper ch) (rng k) = Inr (bs ! j)"
      then obtain j where j: "j < length bs"
        "resolve_symbol ar t (py_upper ch) (rng k) = Inr (bs ! j)" by blast
      with Cons [of "Suc k"] amb resolved_char_pick [OF Some j(1)] show ?thesis
        by (simp only: resolve_chars_symbol [OF Some]) (auto split: sum.splits)
    qed
  qed
qed

lemma draws_before_0: "draws_before seq 0 = 0"
  by (simp add: draws_before_def)

lemma draws_before_Suc:
  "draws_before (ch # seq) (Suc i) = (if is_ambiguous ch then 1 else 0) + draws_before seq i"
  by (simp add: draws_before_def)

lemma resolve_chars_draws:
  assumes "resolve_chars ar seq t rng k = Inr out" and "i < length seq"
    and "is_ambiguous (seq ! i)"
  shows "\<exists>b. resolve_symbol ar t (py_upper (seq ! i)) (rng (k + draws_before seq i)) = Inr b
           \<and> out ! i = recase (seq ! i) b"
  using assms
proof (induction seq arbitrary: k out i)
  case Nil
  then show ?case by simp
next
  case (Cons ch seq)
  show ?case
  proof (cases "map_of AMBIGUOUS_NUCLEOTIDES (py_upper ch)")
    case None
    then have namb: "\<not> is_ambiguous ch" by (simp add: is_ambiguous_table)
    from Cons.prems(1) obtain rest where rest: "resolve_chars ar seq t rng k = Inr rest"
      and out: "out = ch # rest"
      by (auto simp: resolve_chars_plain [OF None] simp del: resolve_chars.simps
            split: sum.splits)
    from Cons.prems(2,3) namb obtain i' where i': "i = Suc i'" "i' < length seq"
      "is_ambiguous (seq ! i')"
      by (cases i) auto
    from Cons.IH [OF rest i'(2,3)] namb show ?thesis
      by (simp add: i' out draws_before_Suc)
  next
    case (Some bs)
    then have amb: "is_ambiguous ch" by (simp add: is_ambiguous_table)
    from Cons.prems(1) obtain chosen rest
      where chosen: "resolve_symbol ar t (py_upper ch) (rng k) = Inr chosen"
        and rest: "resolve_chars ar seq t rng (Suc k) = Inr rest"
        and out: "out = recase ch chosen # rest"
      by (auto simp: resolve_chars_symbol [OF Some] simp del: resolve_chars.simps
            split: sum.splits)
    show ?thesis
    proof (cases i)
      case 0
      with chosen out show ?thesis by (simp add: draws_before_0)
    next
      case (Suc i')
      with Cons.prems(2,3) have "i' < length seq" "is_ambiguous (seq ! i')" by simp_all
      from Cons.IH [OF rest this] amb show ?thesis
        by (simp add: Suc out draws_before_Suc)
    qed
  qed
qed

subsection \<open>Exact arithmetic\<close>

lemma exact_ops:
  "fzero exact = 0" "fadd exact = (+)" "fmul exact = (*)" "fdiv exact = (/)"
  "fratio exact = (\<lambda>a b. real a / real b)" "flt exact = (<)" "fle exact = (\<le>)"
  "is_zero exact = (\<lambda>x. x = 0)" "isfinite exact = (\<lambda>x. True)"
  by (simp_all add: exact_def)

lemma fsum_exact: "fsum exact ws = sum_list ws"
  by (simp add: exact_def)

lemma accumulate_from_last:
  "last (r # accumulate_from exact r ws) = r + sum_list ws"
  by (induction ws arbitrary: r) (simp_all add: add.assoc exact_ops)

lemma accumulate_last: "ws \<noteq> [] \<Longrightarrow> last (accumulate exact ws) = sum_list ws"
  by (cases ws) (simp_all add: accumulate_def accumulate_from_last del: last.simps)

lemma sum_list_divide: "sum_list (map (\<lambda>w. w / s) ws) = sum_list ws / (s::real)"
  by (induction ws) (simp_all add: add_divide_distrib)

lemma normalised_exact_sum:
  assumes "rw \<noteq> []"
  shows "sum_list (normalised exact rw) = 1"
proof (cases "sum_list rw = 0")
  case True
  with assms show ?thesis
    by (simp add: normalised_def fsum_exact exact_ops sum_list_replicate)
next
  case False
  then show ?thesis
    by (simp add: normalised_def fsum_exact exact_ops sum_list_divide)
qed

lemma choices_exact:
  assumes "length ws = length bs" and "bs \<noteq> []" and "sum_list ws = 1"
  shows "choices exact bs ws u = Inr (bs ! chosen_index exact ws u)"
proof -
  from assms have "ws \<noteq> []" by auto
  then have "last (accumulate exact ws) = 1"
    using assms(3) by (simp add: accumulate_last)
  then show ?thesis
    by (simp add: choices_cases [OF assms(1,2)] exact_ops)
qed

lemma resolve_symbol_exact:
  assumes "map_of AMBIGUOUS_NUCLEOTIDES symb = Some bs"
    and "lookup_all probs ''ACGT'' = Inr t"
  shows "\<exists>j < length bs. resolve_symbol exact t symb u = Inr (bs ! j)"
proof -
  from resolve_symbol_eq [OF assms, of exact u] obtain rw
    where rw: "list_all2 (\<lambda>b w. map_of probs b = Some w) bs rw"
      and eq: "resolve_symbol exact t symb u = choices exact bs (normalised exact rw) u"
    by blast
  from rw have len: "length (normalised exact rw) = length bs"
    by (simp add: normalised_length list_all2_lengthD)
  from table_shape [OF assms(1)] have ne: "bs \<noteq> []" by auto
  with rw have rne: "rw \<noteq> []" by (auto dest: list_all2_lengthD)
  then have nne: "normalised exact rw \<noteq> []" using len ne by auto
  have "choices exact bs (normalised exact rw) u
          = Inr (bs ! chosen_index exact (normalised exact rw) u)"
    by (rule choices_exact [OF len ne normalised_exact_sum [OF rne]])
  moreover have "chosen_index exact (normalised exact rw) u < length bs"
    using chosen_index_less [OF nne, of exact u] len by simp
  ultimately show ?thesis using eq by auto
qed

lemma resolve_chars_exact:
  assumes "lookup_all probs ''ACGT'' = Inr t"
  shows "\<exists>out. resolve_chars exact seq t rng k = Inr out"
proof (induction seq arbitrary: k)
  case Nil
  show ?case by simp
next
  case (Cons ch seq)
  show ?case
  proof (cases "map_of AMBIGUOUS_NUCLEOTIDES (py_upper ch)")
    case None
    with Cons [of k] show ?thesis
      by (auto simp: resolve_chars_plain [OF None] simp del: resolve_chars.simps)
  next
    case (Some bs)
    from resolve_symbol_exact [OF Some assms, of "rng k"] Cons [of "Suc k"] show ?thesis
      by (auto simp: resolve_chars_symbol [OF Some] simp del: resolve_chars.simps)
  qed
qed

subsection \<open>Probabilities in exact arithmetic\<close>

lemma restricted_weights_real:
  assumes "list_all2 (\<lambda>b w. map_of probs b = Some w) bs rw"
  shows "rw = map (weight_of probs) bs"
proof -
  from assms have "length rw = length bs" "\<forall>i < length bs. rw ! i = weight_of probs (bs ! i)"
    by (auto simp: list_all2_conv_all_nth weight_of_def)
  then show ?thesis
    by (simp add: list_eq_iff_nth_eq)
qed

lemma normalised_exact_probability:
  "normalised exact (map (weight_of probs) bs) = map (candidate_probability probs bs) bs"
  by (simp add: normalised_def fsum_exact exact_ops candidate_probability_def [abs_def]
        map_replicate_const comp_def)

lemma candidate_probability_sum:
  assumes "bs \<noteq> []"
  shows "sum_list (map (candidate_probability probs bs) bs) = 1"
  using normalised_exact_sum [of "map (weight_of probs) bs"] assms
  by (simp add: normalised_exact_probability)

lemma candidate_probability_nonneg:
  assumes "\<forall>b \<in> set bs. 0 \<le> weight_of probs b" and "b' \<in> set bs"
  shows "0 \<le> candidate_probability probs bs b'"
proof -
  have "0 \<le> sum_list (map (weight_of probs) bs)"
    using assms by (intro sum_list_nonneg) auto
  with assms show ?thesis
    by (simp add: candidate_probability_def Let_def)
qed

lemma weight_of_nonneg:
  assumes "lookup_all probs ''ACGT'' = Inr t" and "\<forall>p \<in> set t. 0 \<le> p"
    and "b \<in> set ''ACGT''"
  shows "0 \<le> weight_of probs b"
proof -
  from assms(1) obtain a c g d where "t = [a, c, g, d]"
    and "map_of probs CHR ''A'' = Some a" and "map_of probs CHR ''C'' = Some c"
    and "map_of probs CHR ''G'' = Some g" and "map_of probs CHR ''T'' = Some d"
    by (rule lookup_all_four)
  with assms(2,3) show ?thesis by (auto simp: weight_of_def)
qed

lemma choices_two:
  assumes "w0 + w1 = 1"
  shows "choices exact [b0, b1] [w0, w1] u = Inr (if u < w0 then b0 else b1)"
  using assms by (simp add: choices_def accumulate_def bisect_right_one exact_ops)

lemma choices_three:
  assumes "w0 + w1 + w2 = 1"
  shows "choices exact [b0, b1, b2] [w0, w1, w2] u =
           Inr (if u < w0 + w1 then (if u < w0 then b0 else b1) else b2)"
  using assms by (simp add: choices_def accumulate_def bisect_right_two exact_ops)

lemma choices_interval:
  assumes "length ws = length bs" and "length bs = 2 \<or> length bs = 3" and "distinct bs"
    and "\<forall>w \<in> set ws. 0 \<le> w" and "sum_list ws = 1"
    and "j < length bs" and "0 \<le> u" and "u < 1"
  shows "choices exact bs ws u = Inr (bs ! j)
           \<longleftrightarrow> sum_list (take j ws) \<le> u \<and> u < sum_list (take j ws) + ws ! j"
proof -
  from assms(2) show ?thesis
  proof
    assume "length bs = 2"
    with assms(1) obtain b0 b1 w0 w1 where bs: "bs = [b0, b1]" and ws: "ws = [w0, w1]"
      by (auto simp: length_Suc_conv numeral_2_eq_2)
    from assms(6) bs have "j = 0 \<or> j = 1" by auto
    with assms(3-5,7,8) show ?thesis
      unfolding bs ws by (auto simp: choices_two)
  next
    assume "length bs = 3"
    with assms(1) obtain b0 b1 b2 w0 w1 w2
      where bs: "bs = [b0, b1, b2]" and ws: "ws = [w0, w1, w2]"
      by (auto simp: length_Suc_conv numeral_3_eq_3)
    from assms(6) bs have "j = 0 \<or> j = 1 \<or> j = 2" by auto
    with assms(3-5,7,8) show ?thesis
      unfolding bs ws by (auto simp: choices_three take_Suc_Cons numeral_2_eq_2)
  qed
qed

lemma resolve_symbol_interval:
  assumes tab: "map_of AMBIGUOUS_NUCLEOTIDES symb = Some bs"
    and dist: "lookup_all probs ''ACGT'' = Inr t"
    and nonneg: "\<forall>p \<in> set t. 0 \<le> p"
    and draw: "unit_draw u"
    and j: "j < length bs"
  shows "resolve_symbol exact t symb u = Inr (bs ! j)
         \<longleftrightarrow> sum_list (map (candidate_probability probs bs) (take j bs)) \<le> u
             \<and> u < sum_list (map (candidate_probability probs bs) (take j bs))
                     + candidate_probability probs bs (bs ! j)"
proof -
  let ?ws = "map (candidate_probability probs bs) bs"
  note sub = table_candidates [OF tab]
  from table_shape [OF tab] have shape: "length bs = 2 \<or> length bs = 3" "distinct bs"
    by simp_all
  then have ne: "bs \<noteq> []" by auto
  have w: "\<forall>b \<in> set bs. 0 \<le> weight_of probs b"
    using sub weight_of_nonneg [OF dist nonneg] by blast
  have ws_nonneg: "\<forall>w \<in> set ?ws. 0 \<le> w"
    using candidate_probability_nonneg [OF w] by auto
  have ws_sum: "sum_list ?ws = 1"
    by (rule candidate_probability_sum [OF ne])
  from resolve_symbol_eq [OF tab dist, of exact u] obtain rw
    where rw: "list_all2 (\<lambda>b w. map_of probs b = Some w) bs rw"
      and eq: "resolve_symbol exact t symb u = choices exact bs (normalised exact rw) u"
    by blast
  have "normalised exact rw = ?ws"
    by (simp add: restricted_weights_real [OF rw] normalised_exact_probability)
  with eq have "resolve_symbol exact t symb u = choices exact bs ?ws u" by simp
  also have "\<dots> = Inr (bs ! j)
      \<longleftrightarrow> sum_list (take j ?ws) \<le> u \<and> u < sum_list (take j ?ws) + ?ws ! j"
    using choices_interval [of ?ws bs j u] shape ws_nonneg ws_sum j draw
    by (simp add: unit_draw_def)
  finally show ?thesis
    using j by (simp add: take_map)
qed

subsection \<open>Evaluation at concrete inputs\<close>

lemma case_values:
  "map py_upper ''aRn-r'' = ''ARN-R''"
  "map py_isupper ''aRn-r'' = [False, True, False, False, False]"
  "map py_upper ''AcRy-N'' = ''ACRY-N''"
  "map py_isupper ''AcRy-N'' = [True, False, True, False, False, True]"
  "py_upper CHR ''R'' = CHR ''R''" "py_isupper CHR ''R''"
  "py_upper CHR ''r'' = CHR ''R''" "\<not> py_isupper CHR ''r''"
  "py_upper CHR ''H'' = CHR ''H''" "py_isupper CHR ''H''"
  "py_lower CHR ''A'' = CHR ''a''" "py_lower CHR ''G'' = CHR ''g''"
  "py_lower CHR ''T'' = CHR ''t''"
  by (simp_all add: py_upper_def py_lower_def py_isupper_def ascii_lowercase_def
        ascii_uppercase_def)

lemma table_values:
  "map (map_of AMBIGUOUS_NUCLEOTIDES) ''ARN-R'' = [None, Some ''AG'', None, None, Some ''AG'']"
  "map (map_of AMBIGUOUS_NUCLEOTIDES) ''ACRY-N''
     = [None, None, Some ''AG'', Some ''CT'', None, None]"
  "map_of AMBIGUOUS_NUCLEOTIDES CHR ''R'' = Some ''AG''"
  "map_of AMBIGUOUS_NUCLEOTIDES CHR ''H'' = Some ''ACT''"
  by (simp_all add: AMBIGUOUS_NUCLEOTIDES_def)

lemma binade_values:
  "binade (1 / 4) = - 2" "binade (1 / 2) = - 1" "binade (3 / 4) = - 1" "binade (1 / 3) = - 2"
  "binade 1 = 0"
  "binade (6004799503160661 / 9007199254740992) = - 1"
  "binade (18014398509481983 / 18014398509481984) = - 1"
  by (simp_all add: binade_def)

lemma round_values:
  "round_binary64 0 = 0"
  "round_binary64 (1 / 4) = 1 / 4" "round_binary64 (1 / 2) = 1 / 2"
  "round_binary64 (3 / 4) = 3 / 4" "round_binary64 1 = 1"
  "round_binary64 (1 / 3) = 6004799503160661 / 18014398509481984"
  "round_binary64 (6004799503160661 / 9007199254740992) = 6004799503160661 / 9007199254740992"
  "round_binary64 (18014398509481983 / 18014398509481984) = 1"
  by (simp_all add: round_binary64_def binade_values round_half_even_def power_int_def
        Let_def power_divide)

lemma to_float_values:
  "to_float 0 = Fin 0"
  "to_float (1 / 4) = Fin (1 / 4)" "to_float (1 / 2) = Fin (1 / 2)"
  "to_float (3 / 4) = Fin (3 / 4)" "to_float 1 = Fin 1"
  "to_float (1 / 3) = Fin (6004799503160661 / 18014398509481984)"
  "to_float (6004799503160661 / 9007199254740992) = Fin (6004799503160661 / 9007199254740992)"
  "to_float (18014398509481983 / 18014398509481984) = Fin 1"
  by (simp_all add: to_float_def round_values)

lemma binary64_ops:
  "fzero binary64 = Fin 0" "fadd binary64 = float_add" "fmul binary64 = float_mul"
  "fdiv binary64 = float_div" "fratio binary64 = (\<lambda>a b. to_float (real a / real b))"
  "fsum binary64 = foldl float_add (Fin 0)"
  "flt binary64 = float_lt" "fle binary64 = float_le"
  "is_zero binary64 = (\<lambda>x. x = Fin 0)" "isfinite binary64 = float_isfinite"
  by (simp_all add: binary64_def)

lemma weights_values:
  "weights_for_symbol exact CHR ''R'' [1, 0, 0, 0] = Inr (''AG'', [1, 0])"
  "weights_for_symbol exact CHR ''R'' [1 / 4, 1 / 4, 1 / 4, 1 / 4] = Inr (''AG'', [1 / 2, 1 / 2])"
  "weights_for_symbol exact CHR ''Y'' [1 / 4, 1 / 4, 1 / 4, 1 / 4] = Inr (''CT'', [1 / 2, 1 / 2])"
  "weights_for_symbol exact CHR ''H'' [1 / 4, 1 / 4, 1 / 4, 1 / 4]
     = Inr (''ACT'', [1 / 3, 1 / 3, 1 / 3])"
  by (simp_all add: weights_for_symbol_def lookup_def AMBIGUOUS_NUCLEOTIDES_def Let_def
        fsum_exact exact_ops)

lemma weights_values_binary64:
  "weights_for_symbol binary64 CHR ''R'' [Fin 1, Fin 0, Fin 0, Fin 0] = Inr (''AG'', [Fin 1, Fin 0])"
  "weights_for_symbol binary64 CHR ''R'' [Fin (1 / 4), Fin (1 / 4), Fin (1 / 4), Fin (1 / 4)]
     = Inr (''AG'', [Fin (1 / 2), Fin (1 / 2)])"
  "weights_for_symbol binary64 CHR ''Y'' [Fin (1 / 4), Fin (1 / 4), Fin (1 / 4), Fin (1 / 4)]
     = Inr (''CT'', [Fin (1 / 2), Fin (1 / 2)])"
  "weights_for_symbol binary64 CHR ''H'' [Fin (1 / 4), Fin (1 / 4), Fin (1 / 4), Fin (1 / 4)]
     = Inr (''ACT'', [Fin (6004799503160661 / 18014398509481984),
                      Fin (6004799503160661 / 18014398509481984),
                      Fin (6004799503160661 / 18014398509481984)])"
  by (simp_all add: weights_for_symbol_def lookup_def AMBIGUOUS_NUCLEOTIDES_def Let_def
        binary64_ops to_float_values)

lemma choices_values:
  "unit_draw u \<Longrightarrow> choices exact ''AG'' [1, 0] u = Inr CHR ''A''"
  "choices exact ''AG'' [1 / 2, 1 / 2] (3 / 4) = Inr CHR ''G''"
  "choices exact ''CT'' [1 / 2, 1 / 2] (3 / 4) = Inr CHR ''T''"
  "choices exact ''ACT'' [1 / 3, 1 / 3, 1 / 3] (6004799503160661 / 9007199254740992)
     = Inr CHR ''C''"
  by (simp_all add: choices_two choices_three unit_draw_def)

lemma choices_values_binary64:
  "choices binary64 ''AG'' [Fin 1, Fin 0] (Fin (1 / 2)) = Inr CHR ''A''"
  "choices binary64 ''AG'' [Fin (1 / 2), Fin (1 / 2)] (Fin (3 / 4)) = Inr CHR ''G''"
  "choices binary64 ''CT'' [Fin (1 / 2), Fin (1 / 2)] (Fin (3 / 4)) = Inr CHR ''T''"
  "choices binary64 ''ACT''
     [Fin (6004799503160661 / 18014398509481984), Fin (6004799503160661 / 18014398509481984),
      Fin (6004799503160661 / 18014398509481984)]
     (Fin (6004799503160661 / 9007199254740992)) = Inr CHR ''T''"
  by (simp_all add: choices_def accumulate_def bisect_right_one bisect_right_two
        binary64_ops to_float_values)

lemma lookup_values:
  "lookup_all [(CHR ''A'', 1), (CHR ''C'', 0), (CHR ''G'', 0), (CHR ''T'', 0)] ''ACGT''
     = Inr [1, 0, 0, 0 :: real]"
  "lookup_all [(CHR ''A'', 1 / 4), (CHR ''C'', 1 / 4), (CHR ''G'', 1 / 4), (CHR ''T'', 1 / 4)]
     ''ACGT'' = Inr [1 / 4, 1 / 4, 1 / 4, 1 / 4 :: real]"
  by (simp_all add: lookup_def)

lemma resolve_values:
  "resolve_ambiguous_sequence exact ''aRn-r''
     [(CHR ''A'', 1), (CHR ''C'', 0), (CHR ''G'', 0), (CHR ''T'', 0)] (\<lambda>k. 1 / 2)
     = Inr ''aAn-a''"
  "resolve_ambiguous_sequence exact ''AcRy-N''
     [(CHR ''A'', 1 / 4), (CHR ''C'', 1 / 4), (CHR ''G'', 1 / 4), (CHR ''T'', 1 / 4)]
     (\<lambda>k. 3 / 4) = Inr ''AcGt-N''"
  "resolve_ambiguous_sequence exact ''H''
     [(CHR ''A'', 1 / 4), (CHR ''C'', 1 / 4), (CHR ''G'', 1 / 4), (CHR ''T'', 1 / 4)]
     (\<lambda>k. 6004799503160661 / 9007199254740992) = Inr ''C''"
  using case_values table_values
  by (simp_all add: resolve_ambiguous_sequence_def lookup_def weights_values
        choices_values unit_draw_def)

lemma resolve_values_binary64:
  "resolve_ambiguous_sequence binary64 ''aRn-r''
     [(CHR ''A'', Fin 1), (CHR ''C'', Fin 0), (CHR ''G'', Fin 0), (CHR ''T'', Fin 0)] (\<lambda>k. Fin (1 / 2))
     = Inr ''aAn-a''"
  "resolve_ambiguous_sequence binary64 ''AcRy-N''
     [(CHR ''A'', Fin (1 / 4)), (CHR ''C'', Fin (1 / 4)), (CHR ''G'', Fin (1 / 4)), (CHR ''T'', Fin (1 / 4))]
     (\<lambda>k. Fin (3 / 4)) = Inr ''AcGt-N''"
  "resolve_ambiguous_sequence binary64 ''H''
     [(CHR ''A'', Fin (1 / 4)), (CHR ''C'', Fin (1 / 4)), (CHR ''G'', Fin (1 / 4)), (CHR ''T'', Fin (1 / 4))]
     (\<lambda>k. Fin (6004799503160661 / 9007199254740992)) = Inr ''T''"
  using case_values table_values
  by (simp_all add: resolve_ambiguous_sequence_def lookup_def weights_values_binary64
        choices_values_binary64)

subsection \<open>Overflow\<close>

lemma binade_up_top: "2 ^ nat (1023 - e) \<le> x \<Longrightarrow> e \<le> 1023 \<Longrightarrow> binade_up e x = 1023"
proof (induction e x rule: binade_up.induct)
  case (1 e x)
  show ?case
  proof (cases "e = 1023")
    case True
    then show ?thesis by simp
  next
    case False
    with 1(3) have e: "e < 1023" by simp
    then have n: "nat (1023 - e) = Suc (nat (1023 - (e + 1)))" by simp
    with 1(2) have x: "2 * 2 ^ nat (1023 - (e + 1)) \<le> x" by simp
    have "(1::real) \<le> 2 ^ nat (1023 - (e + 1))" by simp
    with x have "\<not> x < 2" by linarith
    moreover from x have "2 ^ nat (1023 - (e + 1)) \<le> x / 2" by simp
    ultimately show ?thesis using 1(1) e by simp
  qed
qed

lemma binade_top:
  fixes m x :: real
  assumes "m = 2 ^ 1023" and "m \<le> x"
  shows "binade x = 1023"
proof -
  have "nat (1023 - 0) = 1023" by simp
  then have "(2::real) ^ nat (1023 - 0) = m" by (simp only: assms(1))
  with assms(2) have "2 ^ nat (1023 - 0) \<le> x" by (simp only:)
  then have up: "binade_up 0 x = 1023" by (rule binade_up_top) simp
  have "(1::real) \<le> 2 ^ 1023" by (rule one_le_power) simp
  with assms have "1 \<le> x" by (simp only:) 
  then have "1 \<le> \<bar>x\<bar>" "\<bar>x\<bar> = x" by simp_all
  with up show ?thesis by (simp only: binade_def if_True)
qed

lemma round_half_even_int: "round_half_even (of_int k) = k"
  by (simp add: round_half_even_def)

lemma overflow_values:
  "to_float (2 ^ 1023) = Fin (2 ^ 1023)"
  "to_float (2 ^ 1023 + 2 ^ 1023) = PosInf"
proof -
  define p :: real where "p = 2 ^ 971"
  define m :: real where "m = 2 ^ 1023"
  define t :: real where "t = 2 ^ 1024"
  have p: "0 < p" unfolding p_def by (rule zero_less_power) simp
  have "(1023::nat) = 52 + 971" "(1024::nat) = Suc 1023" by simp_all
  then have "(2::real) ^ 1023 = 2 ^ 52 * 2 ^ 971" "(2::real) ^ 1024 = 2 * 2 ^ 1023"
    by (simp_all only: power_add power_Suc)
  then have m: "m = of_int 4503599627370496 * p" and t: "t = m + m"
    unfolding m_def p_def t_def by simp_all
  from m p have mpos: "0 < m" by simp
  have ulp: "(2::real) powi (1023 - 52) = p"
    unfolding p_def by simp
  have bm: "binade m = 1023" using m_def by (rule binade_top) simp
  have bt: "binade (m + m) = 1023" using m_def by (rule binade_top) (use mpos in simp)
  have "m / p = of_int 4503599627370496" using p by (simp add: m)
  then have "round_half_even (m / p) = 4503599627370496"
    by (simp only: round_half_even_int)
  with mpos have rm: "round_binary64 m = m"
    by (simp only: round_binary64_def bm ulp Let_def m [symmetric]) simp
  have "(m + m) / p = of_int 9007199254740992" using p by (simp add: m)
  then have "round_half_even ((m + m) / p) = 9007199254740992"
    by (simp only: round_half_even_int)
  moreover have "of_int 9007199254740992 * p = m + m" by (simp add: m)
  moreover from mpos have "m + m \<noteq> 0" by simp
  ultimately have rt: "round_binary64 (m + m) = m + m"
    by (simp only: round_binary64_def bt ulp Let_def if_False)
  have "to_float m = Fin m"
    unfolding to_float_def Let_def rm t_def [symmetric] using mpos by (simp add: t)
  then show "to_float (2 ^ 1023) = Fin (2 ^ 1023)" by (simp only: m_def)
  have "to_float (m + m) = PosInf"
    unfolding to_float_def Let_def rt t_def [symmetric] by (simp add: t)
  then show "to_float (2 ^ 1023 + 2 ^ 1023) = PosInf" by (simp only: m_def)
qed

lemma resolve_overflow:
  "resolve_ambiguous_sequence binary64 ''R''
     [(CHR ''A'', Fin (2 ^ 1023)), (CHR ''C'', Fin 0), (CHR ''G'', Fin (2 ^ 1023)),
      (CHR ''T'', Fin 0)] rng = Inl ValueError"
proof -
  define m :: real where "m = 2 ^ 1023"
  have m: "to_float m = Fin m" "to_float (m + m) = PosInf" "to_float (2 * m) = PosInf"
    using overflow_values by (simp_all only: m_def mult_2)
  have "weights_for_symbol binary64 CHR ''R'' [Fin m, Fin 0, Fin m, Fin 0]
          = Inr (''AG'', [Fin 0, Fin 0])"
    by (simp add: weights_for_symbol_def lookup_def AMBIGUOUS_NUCLEOTIDES_def Let_def
          binary64_ops m)
  moreover have "choices binary64 ''AG'' [Fin 0, Fin 0] u = Inl ValueError" for u
    by (simp add: choices_def accumulate_def binary64_ops to_float_values)
  ultimately have "resolve_ambiguous_sequence binary64 ''R''
     [(CHR ''A'', Fin m), (CHR ''C'', Fin 0), (CHR ''G'', Fin m), (CHR ''T'', Fin 0)] rng
       = Inl ValueError"
    using case_values table_values
    by (simp add: resolve_ambiguous_sequence_def lookup_def)
  then show ?thesis by (simp only: m_def)
qed

subsection \<open>What a resolved position holds\<close>

lemma resolved_char_cases:
  assumes "resolved_char ch c"
  shows "if is_ambiguous ch
         then (\<exists>bs. map_of AMBIGUOUS_NUCLEOTIDES (py_upper ch) = Some bs \<and> py_upper c \<in> set bs)
              \<and> (if py_isupper ch then c \<in> set ''ACGT'' else c \<in> set ''acgt'')
         else c = ch"
proof (cases "map_of AMBIGUOUS_NUCLEOTIDES (py_upper ch)")
  case None
  with assms show ?thesis by (simp add: resolved_char_def is_ambiguous_table)
next
  case (Some bs)
  note sub = table_candidates [OF Some]
  show ?thesis
  proof (cases "py_isupper ch")
    case True
    with assms Some have "c \<in> set bs" by (simp add: resolved_char_def)
    with sub have "c \<in> set ''ACGT''" by blast
    with canonical_case [of c] \<open>c \<in> set bs\<close> Some True show ?thesis
      by (simp add: is_ambiguous_table)
  next
    case False
    with assms Some obtain b where b: "b \<in> set bs" "c = py_lower b"
      by (auto simp: resolved_char_def)
    with sub have "b \<in> set ''ACGT''" by blast
    with canonical_case [of b] b Some False show ?thesis
      by (simp add: is_ambiguous_table)
  qed
qed

lemma resolved_case:
  assumes "list_all2 resolved_char seq out"
  shows "length out = length seq
     \<and> (\<forall>i < length seq.
           if is_ambiguous (seq ! i)
           then (if py_isupper (seq ! i) then out ! i \<in> set ''ACGT''
                 else out ! i \<in> set ''acgt'')
           else out ! i = seq ! i)"
proof -
  have "if is_ambiguous (seq ! i)
        then (if py_isupper (seq ! i) then out ! i \<in> set ''ACGT'' else out ! i \<in> set ''acgt'')
        else out ! i = seq ! i" if "i < length seq" for i
  proof -
    from assms that have "resolved_char (seq ! i) (out ! i)"
      by (simp add: list_all2_conv_all_nth)
    from resolved_char_cases [OF this] show ?thesis
      by (simp split: if_splits)
  qed
  moreover from assms have "length out = length seq"
    by (simp add: list_all2_lengthD)
  ultimately show ?thesis by blast
qed

lemma resolved_positions:
  assumes "list_all2 resolved_char seq out"
  shows "length out = length seq
     \<and> (\<forall>i < length seq.
           out ! i = seq ! i
           \<or> (is_ambiguous (seq ! i) \<and> py_upper (out ! i) \<in> set ''ACGT''
               \<and> (\<exists>bs. map_of AMBIGUOUS_NUCLEOTIDES (py_upper (seq ! i)) = Some bs
                        \<and> py_upper (out ! i) \<in> set bs)))"
proof -
  have "out ! i = seq ! i
        \<or> (is_ambiguous (seq ! i) \<and> py_upper (out ! i) \<in> set ''ACGT''
            \<and> (\<exists>bs. map_of AMBIGUOUS_NUCLEOTIDES (py_upper (seq ! i)) = Some bs
                     \<and> py_upper (out ! i) \<in> set bs))" if "i < length seq" for i
  proof -
    from assms that have r: "resolved_char (seq ! i) (out ! i)"
      by (simp add: list_all2_conv_all_nth)
    show ?thesis
    proof (cases "is_ambiguous (seq ! i)")
      case False
      with resolved_char_cases [OF r] show ?thesis by simp
    next
      case True
      with resolved_char_cases [OF r] obtain bs
        where bs: "map_of AMBIGUOUS_NUCLEOTIDES (py_upper (seq ! i)) = Some bs"
          "py_upper (out ! i) \<in> set bs" by auto
      with table_candidates [OF bs(1)] have "py_upper (out ! i) \<in> set ''ACGT''"
        by blast
      with True bs show ?thesis by blast
    qed
  qed
  moreover from assms have "length out = length seq"
    by (simp add: list_all2_lengthD)
  ultimately show ?thesis by blast
qed

lemma resolve_sound:
  assumes "lookup_all probs ''ACGT'' = Inr t"
  shows "case resolve_ambiguous_sequence ar seq probs rng of
           Inr out \<Rightarrow> list_all2 resolved_char seq out
         | Inl e \<Rightarrow> e = ValueError \<and> (\<exists>c \<in> set seq. is_ambiguous c)"
  using resolve_chars_sound [OF assms, where ar = ar and seq = seq and rng = rng and k = 0] assms
  by (simp add: resolve_ambiguous_sequence_def)

lemma resolve_exact:
  assumes "lookup_all probs ''ACGT'' = Inr t"
  shows "\<exists>out. resolve_ambiguous_sequence exact seq probs rng = Inr out
           \<and> list_all2 resolved_char seq out"
proof -
  from resolve_chars_exact [OF assms, where seq = seq and rng = rng and k = 0] assms obtain out
    where out: "resolve_ambiguous_sequence exact seq probs rng = Inr out"
    by (auto simp: resolve_ambiguous_sequence_def)
  with resolve_sound [OF assms, where ar = exact and seq = seq and rng = rng] show ?thesis by simp
qed

subsection \<open>The selection at one position\<close>

lemma selection_located:
  assumes i: "i < length seq"
    and tab: "map_of AMBIGUOUS_NUCLEOTIDES (py_upper (seq ! i)) = Some bs"
    and dist: "lookup_all probs ''ACGT'' = Inr tf"
    and res: "resolve_ambiguous_sequence ar seq probs draws = Inr out"
  shows "\<exists>rw j. list_all2 (\<lambda>b w. map_of probs b = Some w) bs rw \<and> j < length bs
           \<and> out ! i = recase (seq ! i) (bs ! j)
           \<and> located ar (accumulate ar (normalised ar rw))
                (fmul ar (draws (draws_before seq i))
                   (fadd ar (last (accumulate ar (normalised ar rw))) (fzero ar))) j"
proof -
  let ?u = "draws (draws_before seq i)"
  from res dist have rc: "resolve_chars ar seq tf draws 0 = Inr out"
    by (simp add: resolve_ambiguous_sequence_def)
  from tab have amb: "is_ambiguous (seq ! i)" by (simp add: is_ambiguous_table)
  from resolve_chars_draws [OF rc i amb] obtain b
    where b: "resolve_symbol ar tf (py_upper (seq ! i)) ?u = Inr b"
      and o: "out ! i = recase (seq ! i) b" by auto
  from resolve_symbol_eq [OF tab dist, where ar = ar and u = ?u] obtain rw
    where rw: "list_all2 (\<lambda>b w. map_of probs b = Some w) bs rw"
      and eq: "resolve_symbol ar tf (py_upper (seq ! i)) ?u = choices ar bs (normalised ar rw) ?u"
    by blast
  from rw have len: "length (normalised ar rw) = length bs"
    by (simp add: normalised_length list_all2_lengthD)
  from table_shape [OF tab] have shape: "length bs = 2 \<or> length bs = 3" by simp
  then have ne: "bs \<noteq> []" by auto
  with len have nne: "normalised ar rw \<noteq> []" by auto
  let ?j = "chosen_index ar (normalised ar rw) ?u"
  from b eq choices_cases [OF len ne, where ar = ar and u = ?u]
  have "b = bs ! ?j" by (simp split: if_splits)
  moreover from chosen_index_less [OF nne, where ar = ar and u = ?u] len
  have "?j < length bs" by simp
  moreover from shape len have "length (normalised ar rw) = 2 \<or> length (normalised ar rw) = 3"
    by simp
  note chosen_index_located [OF this, where ar = ar and u = ?u]
  ultimately show ?thesis using rw o by blast
qed

lemma selection_exact:
  assumes i: "i < length seq"
    and tab: "map_of AMBIGUOUS_NUCLEOTIDES (py_upper (seq ! i)) = Some bs"
    and dist: "lookup_all base_probs ''ACGT'' = Inr t"
    and nonneg: "\<forall>p \<in> set t. 0 \<le> p"
    and draw: "unit_draw (rng (draws_before seq i))"
  shows "sum_list (map (candidate_probability base_probs bs) bs) = 1
     \<and> (\<exists>out. resolve_ambiguous_sequence exact seq base_probs rng = Inr out
          \<and> (\<forall>j < length bs.
                0 \<le> candidate_probability base_probs bs (bs ! j)
                \<and> (out ! i = recase (seq ! i) (bs ! j)
                     \<longleftrightarrow> sum_list (map (candidate_probability base_probs bs) (take j bs))
                            \<le> rng (draws_before seq i)
                          \<and> rng (draws_before seq i)
                            < sum_list (map (candidate_probability base_probs bs) (take j bs))
                              + candidate_probability base_probs bs (bs ! j))))"
proof -
  let ?u = "rng (draws_before seq i)"
  note sub = table_candidates [OF tab]
  from table_shape [OF tab] have ne: "bs \<noteq> []" by auto
  from resolve_chars_exact [OF dist, where seq = seq and rng = rng and k = 0] obtain out
    where rc: "resolve_chars exact seq t rng 0 = Inr out" by blast
  with dist have res: "resolve_ambiguous_sequence exact seq base_probs rng = Inr out"
    by (simp add: resolve_ambiguous_sequence_def)
  from tab have amb: "is_ambiguous (seq ! i)" by (simp add: is_ambiguous_table)
  from resolve_chars_draws [OF rc i amb] obtain b
    where b: "resolve_symbol exact t (py_upper (seq ! i)) ?u = Inr b"
      and o: "out ! i = recase (seq ! i) b" by auto
  from resolve_symbol_exact [OF tab dist, where u = ?u] b obtain j0
    where "j0 < length bs" "b = bs ! j0" by auto
  with sub have bin: "b \<in> set ''ACGT''" by (meson nth_mem subsetD)
  have "0 \<le> candidate_probability base_probs bs (bs ! j)
        \<and> (out ! i = recase (seq ! i) (bs ! j)
             \<longleftrightarrow> sum_list (map (candidate_probability base_probs bs) (take j bs)) \<le> ?u
                  \<and> ?u < sum_list (map (candidate_probability base_probs bs) (take j bs))
                          + candidate_probability base_probs bs (bs ! j))"
    if j: "j < length bs" for j
  proof -
    from j have mem: "bs ! j \<in> set bs" by simp
    with sub have jin: "bs ! j \<in> set ''ACGT''" by blast
    have "\<forall>b \<in> set bs. 0 \<le> weight_of base_probs b"
      using weight_of_nonneg [OF dist nonneg] sub by blast
    from candidate_probability_nonneg [OF this mem]
    have nn: "0 \<le> candidate_probability base_probs bs (bs ! j)" .
    have "out ! i = recase (seq ! i) (bs ! j) \<longleftrightarrow> b = bs ! j"
      using recase_inj [OF bin jin] o by simp
    also have "\<dots> \<longleftrightarrow> resolve_symbol exact t (py_upper (seq ! i)) ?u = Inr (bs ! j)"
      using b by auto
    also note resolve_symbol_interval [OF tab dist nonneg draw j]
    finally show ?thesis using nn by simp
  qed
  with res candidate_probability_sum [OF ne] show ?thesis by blast
qed

lemma weights_unit:
  assumes "unit_laws ar one"
  shows "weights_for_symbol ar CHR ''R'' [one, fzero ar, fzero ar, fzero ar]
           = Inr (''AG'', [one, fzero ar])"
  using assms
  by (simp add: weights_for_symbol_def lookup_def AMBIGUOUS_NUCLEOTIDES_def Let_def
        unit_laws_def)

lemma choices_unit:
  assumes "unit_laws ar one" and "fmul ar u one = u" and "flt ar u one"
  shows "choices ar ''AG'' [one, fzero ar] u = Inr CHR ''A''"
  using assms
  by (simp add: choices_def accumulate_def bisect_right_one unit_laws_def)

lemma resolve_unit:
  assumes "unit_laws ar one" and "fmul ar (draws 0) one = draws 0" and "flt ar (draws 0) one"
  shows "resolve_ambiguous_sequence ar ''R''
           [(CHR ''A'', one), (CHR ''C'', fzero ar), (CHR ''G'', fzero ar), (CHR ''T'', fzero ar)]
           draws = Inr ''A''"
    and "resolve_ambiguous_sequence ar ''r''
           [(CHR ''A'', one), (CHR ''C'', fzero ar), (CHR ''G'', fzero ar), (CHR ''T'', fzero ar)]
           draws = Inr ''a''"
  using case_values table_values weights_unit [OF assms(1)] choices_unit [OF assms]
  by (simp_all add: resolve_ambiguous_sequence_def lookup_def)

lemma unit_laws_values: "unit_laws exact 1" "unit_laws binary64 (Fin 1)"
  by (simp_all add: unit_laws_def exact_def binary64_ops to_float_values)

lemma candidate_values:
  "map (candidate_probability
     [(CHR ''A'', 1 / 4), (CHR ''C'', 1 / 4), (CHR ''G'', 1 / 4), (CHR ''T'', 1 / 4)] ''ACT'')
     ''ACT'' = [1 / 3, 1 / 3, 1 / 3]"
  "map (candidate_probability
     [(CHR ''A'', 1 / 4), (CHR ''C'', 1 / 4), (CHR ''G'', 1 / 4), (CHR ''T'', 1 / 4)] ''CT'')
     ''CT'' = [1 / 2, 1 / 2]"
  by (simp_all add: candidate_probability_def weight_of_def Let_def)

section \<open>Ambiguity resolution: claims\<close>

text \<open>
  C4. A draw of \<^verbatim>\<open>random.random()\<close> that lies in the interval of probability of the
  candidate C does not select C: the sequence \<^verbatim>\<open>H\<close> (candidates A, C, T) under the
  uniform distribution, where each candidate has probability 1/3 and C the interval from
  1/3 to 2/3, at the draw 6004799503160661 / 2^53 (the float 0.6666666666666666, below
  2/3). In exact arithmetic the result is C. In float arithmetic the three weights are
  the float nearest to 1/3, their running sums are 0.3333333333333333,
  0.6666666666666666 and 1.0, the draw is not below the second sum, and the result is T.
\<close>

theorem resolve_probability_counterexample:
  "unit_draw (6004799503160661 / 9007199254740992)
   \<and> sum_list (map (candidate_probability
          [(CHR ''A'', 1 / 4), (CHR ''C'', 1 / 4), (CHR ''G'', 1 / 4), (CHR ''T'', 1 / 4)] ''ACT'')
        (take 1 ''ACT'')) \<le> 6004799503160661 / 9007199254740992
   \<and> 6004799503160661 / 9007199254740992
       < sum_list (map (candidate_probability
            [(CHR ''A'', 1 / 4), (CHR ''C'', 1 / 4), (CHR ''G'', 1 / 4), (CHR ''T'', 1 / 4)] ''ACT'')
          (take 1 ''ACT''))
         + candidate_probability
             [(CHR ''A'', 1 / 4), (CHR ''C'', 1 / 4), (CHR ''G'', 1 / 4), (CHR ''T'', 1 / 4)] ''ACT''
             (''ACT'' ! 1)
   \<and> resolve_ambiguous_sequence exact ''H''
        [(CHR ''A'', 1 / 4), (CHR ''C'', 1 / 4), (CHR ''G'', 1 / 4), (CHR ''T'', 1 / 4)]
        (\<lambda>k. 6004799503160661 / 9007199254740992) = Inr ''C''
   \<and> resolve_ambiguous_sequence binary64 ''H''
        [(CHR ''A'', Fin (1 / 4)), (CHR ''C'', Fin (1 / 4)), (CHR ''G'', Fin (1 / 4)),
         (CHR ''T'', Fin (1 / 4))]
        (\<lambda>k. Fin (6004799503160661 / 9007199254740992)) = Inr ''T''"
  using candidate_values
  by (simp add: unit_draw_def resolve_values resolve_values_binary64)

text \<open>
  C4, as the code has it. Let position \<open>i\<close> of the sequence hold an ambiguity symbol
  with the candidate list \<open>bs\<close>; its draw is the one numbered by the ambiguity symbols
  before \<open>i\<close>.
  \<^item> In every arithmetic: when the call returns, position \<open>i\<close> of the result is the
    candidate \<open>bs ! j\<close> in the case of the symbol, for the index \<open>j\<close> at which the draw,
    scaled by the total, lies among the running sums of the normalised weights; these
    are the weights of the candidates in the distribution divided by their sum, and
    equal shares when the sum is zero, all computed in that arithmetic.
  \<^item> In exact arithmetic, for a distribution without negative weights and a draw in
    \<open>[0, 1)\<close>: the call returns, the probabilities of the candidates are not negative
    and sum to 1, and the candidate \<open>bs ! j\<close> is selected exactly when the draw lies in
    the half-open interval that begins at the sum of the probabilities of the earlier
    candidates and has the probability of \<open>bs ! j\<close> as its length. Under a uniform draw
    each candidate is therefore selected with its probability, and with probability
    \<open>1 / length bs\<close> when the restricted weights sum to zero.
  \<^item> In every arithmetic with the laws \<open>unit_laws\<close> for its number 1, floats included:
    under the distribution that gives 1 to A and 0 to C, G and T, and for a draw \<open>u\<close>
    below 1 with \<open>u * 1 = u\<close>, the sequence \<^verbatim>\<open>R\<close> resolves to \<^verbatim>\<open>A\<close> and \<^verbatim>\<open>r\<close> to \<^verbatim>\<open>a\<close>.
\<close>

theorem resolve_symbol_selection:
  assumes "i < length seq"
    and "map_of AMBIGUOUS_NUCLEOTIDES (py_upper (seq ! i)) = Some bs"
  shows "(lookup_all probs ''ACGT'' = Inr tf
          \<and> resolve_ambiguous_sequence ar seq probs draws = Inr out \<longrightarrow>
            (\<exists>rw j. list_all2 (\<lambda>b w. map_of probs b = Some w) bs rw \<and> j < length bs
               \<and> out ! i = recase (seq ! i) (bs ! j)
               \<and> located ar (accumulate ar (normalised ar rw))
                    (fmul ar (draws (draws_before seq i))
                       (fadd ar (last (accumulate ar (normalised ar rw))) (fzero ar))) j))
     \<and> (lookup_all base_probs ''ACGT'' = Inr t \<and> (\<forall>p \<in> set t. 0 \<le> p)
          \<and> unit_draw (rng (draws_before seq i)) \<longrightarrow>
            sum_list (map (candidate_probability base_probs bs) bs) = 1
            \<and> (\<exists>out'. resolve_ambiguous_sequence exact seq base_probs rng = Inr out'
                 \<and> (\<forall>j < length bs.
                       0 \<le> candidate_probability base_probs bs (bs ! j)
                       \<and> (out' ! i = recase (seq ! i) (bs ! j)
                            \<longleftrightarrow> sum_list (map (candidate_probability base_probs bs) (take j bs))
                                   \<le> rng (draws_before seq i)
                                 \<and> rng (draws_before seq i)
                                   < sum_list (map (candidate_probability base_probs bs)
                                       (take j bs))
                                     + candidate_probability base_probs bs (bs ! j)))))
     \<and> (unit_laws ar' one \<and> fmul ar' (draws' 0) one = draws' 0 \<and> flt ar' (draws' 0) one \<longrightarrow>
            resolve_ambiguous_sequence ar' ''R''
              [(CHR ''A'', one), (CHR ''C'', fzero ar'), (CHR ''G'', fzero ar'),
               (CHR ''T'', fzero ar')] draws' = Inr ''A''
            \<and> resolve_ambiguous_sequence ar' ''r''
                [(CHR ''A'', one), (CHR ''C'', fzero ar'), (CHR ''G'', fzero ar'),
                 (CHR ''T'', fzero ar')] draws' = Inr ''a'')"
proof (intro conjI impI)
  assume "lookup_all probs ''ACGT'' = Inr tf
          \<and> resolve_ambiguous_sequence ar seq probs draws = Inr out"
  then show "\<exists>rw j. list_all2 (\<lambda>b w. map_of probs b = Some w) bs rw \<and> j < length bs
               \<and> out ! i = recase (seq ! i) (bs ! j)
               \<and> located ar (accumulate ar (normalised ar rw))
                    (fmul ar (draws (draws_before seq i))
                       (fadd ar (last (accumulate ar (normalised ar rw))) (fzero ar))) j"
    using selection_located [OF assms] by blast
next
  assume a: "lookup_all base_probs ''ACGT'' = Inr t \<and> (\<forall>p \<in> set t. 0 \<le> p)
          \<and> unit_draw (rng (draws_before seq i))"
  then have sel: "sum_list (map (candidate_probability base_probs bs) bs) = 1
     \<and> (\<exists>out. resolve_ambiguous_sequence exact seq base_probs rng = Inr out
          \<and> (\<forall>j < length bs.
                0 \<le> candidate_probability base_probs bs (bs ! j)
                \<and> (out ! i = recase (seq ! i) (bs ! j)
                     \<longleftrightarrow> sum_list (map (candidate_probability base_probs bs) (take j bs))
                            \<le> rng (draws_before seq i)
                          \<and> rng (draws_before seq i)
                            < sum_list (map (candidate_probability base_probs bs) (take j bs))
                              + candidate_probability base_probs bs (bs ! j))))"
    using selection_exact [OF assms, where base_probs = base_probs and t = t and rng = rng]
    by blast
  from sel show "sum_list (map (candidate_probability base_probs bs) bs) = 1" by (rule conjunct1)
  from sel show "\<exists>out'. resolve_ambiguous_sequence exact seq base_probs rng = Inr out'
                 \<and> (\<forall>j < length bs.
                       0 \<le> candidate_probability base_probs bs (bs ! j)
                       \<and> (out' ! i = recase (seq ! i) (bs ! j)
                            \<longleftrightarrow> sum_list (map (candidate_probability base_probs bs) (take j bs))
                                   \<le> rng (draws_before seq i)
                                 \<and> rng (draws_before seq i)
                                   < sum_list (map (candidate_probability base_probs bs)
                                       (take j bs))
                                     + candidate_probability base_probs bs (bs ! j)))"
    by (rule conjunct2)
next
  assume "unit_laws ar' one \<and> fmul ar' (draws' 0) one = draws' 0 \<and> flt ar' (draws' 0) one"
  then show "resolve_ambiguous_sequence ar' ''R''
              [(CHR ''A'', one), (CHR ''C'', fzero ar'), (CHR ''G'', fzero ar'),
               (CHR ''T'', fzero ar')] draws' = Inr ''A''"
    using resolve_unit(1) [of ar' one draws'] by simp
next
  assume "unit_laws ar' one \<and> fmul ar' (draws' 0) one = draws' 0 \<and> flt ar' (draws' 0) one"
  then show "resolve_ambiguous_sequence ar' ''r''
                [(CHR ''A'', one), (CHR ''C'', fzero ar'), (CHR ''G'', fzero ar'),
                 (CHR ''T'', fzero ar')] draws' = Inr ''a''"
    using resolve_unit(2) [of ar' one draws'] by simp
qed

theorem resolve_symbol_selection_witness:
  "(3::nat) < length ''AcRy-N''
   \<and> map_of AMBIGUOUS_NUCLEOTIDES (py_upper (''AcRy-N'' ! 3)) = Some ''CT''
   \<and> lookup_all [(CHR ''A'', Fin (1 / 4)), (CHR ''C'', Fin (1 / 4)), (CHR ''G'', Fin (1 / 4)),
                   (CHR ''T'', Fin (1 / 4))] ''ACGT''
        = Inr [Fin (1 / 4), Fin (1 / 4), Fin (1 / 4), Fin (1 / 4)]
   \<and> resolve_ambiguous_sequence binary64 ''AcRy-N''
        [(CHR ''A'', Fin (1 / 4)), (CHR ''C'', Fin (1 / 4)), (CHR ''G'', Fin (1 / 4)),
         (CHR ''T'', Fin (1 / 4))] (\<lambda>k. Fin (3 / 4)) = Inr ''AcGt-N''
   \<and> lookup_all [(CHR ''A'', 1 / 4), (CHR ''C'', 1 / 4), (CHR ''G'', 1 / 4), (CHR ''T'', 1 / 4)]
        ''ACGT'' = Inr [1 / 4, 1 / 4, 1 / 4, 1 / 4 :: real]
   \<and> list_all (\<lambda>p. 0 \<le> p) [1 / 4, 1 / 4, 1 / 4, 1 / 4 :: real]
   \<and> unit_draw (3 / 4)
   \<and> resolve_ambiguous_sequence exact ''AcRy-N''
        [(CHR ''A'', 1 / 4), (CHR ''C'', 1 / 4), (CHR ''G'', 1 / 4), (CHR ''T'', 1 / 4)]
        (\<lambda>k. 3 / 4) = Inr ''AcGt-N''
   \<and> unit_laws binary64 (Fin 1)
   \<and> fmul binary64 (Fin (1 / 2)) (Fin 1) = Fin (1 / 2)
   \<and> flt binary64 (Fin (1 / 2)) (Fin 1)
   \<and> resolve_ambiguous_sequence binary64 ''R''
        [(CHR ''A'', Fin 1), (CHR ''C'', Fin 0), (CHR ''G'', Fin 0), (CHR ''T'', Fin 0)]
        (\<lambda>k. Fin (1 / 2)) = Inr ''A''
   \<and> resolve_ambiguous_sequence binary64 ''r''
        [(CHR ''A'', Fin 1), (CHR ''C'', Fin 0), (CHR ''G'', Fin 0), (CHR ''T'', Fin 0)]
        (\<lambda>k. Fin (1 / 2)) = Inr ''a''"
proof -
  have i: "(3::nat) < length ''AcRy-N''" by simp
  have "py_upper (''AcRy-N'' ! 3) = CHR ''Y''"
    by (simp add: py_upper_def ascii_lowercase_def ascii_uppercase_def)
  then have tab: "map_of AMBIGUOUS_NUCLEOTIDES (py_upper (''AcRy-N'' ! 3)) = Some ''CT''"
    by (simp add: AMBIGUOUS_NUCLEOTIDES_def)
  have ops: "fmul binary64 (Fin (1 / 2)) (Fin 1) = Fin (1 / 2)"
    "flt binary64 (Fin (1 / 2)) (Fin 1)" "fzero binary64 = Fin 0"
    by (simp_all add: binary64_ops to_float_values)
  show ?thesis
    using resolve_symbol_selection
      [OF i tab, where probs = "[(CHR ''A'', Fin (1 / 4)), (CHR ''C'', Fin (1 / 4)),
                       (CHR ''G'', Fin (1 / 4)), (CHR ''T'', Fin (1 / 4))]"
         and tf = "[Fin (1 / 4), Fin (1 / 4), Fin (1 / 4), Fin (1 / 4)]"
         and ar = binary64 and draws = "\<lambda>k. Fin (3 / 4)" and out = "''AcGt-N''"
         and base_probs = "[(CHR ''A'', 1 / 4), (CHR ''C'', 1 / 4), (CHR ''G'', 1 / 4),
                            (CHR ''T'', 1 / 4)]"
         and t = "[1 / 4, 1 / 4, 1 / 4, 1 / 4]" and rng = "\<lambda>k. 3 / 4"
         and ar' = binary64 and one = "Fin 1" and draws' = "\<lambda>k. Fin (1 / 2)"]
    using i tab
    by (simp add: ops lookup_def unit_draw_def unit_laws_values resolve_values
          resolve_values_binary64 del: nth.simps)
qed

text \<open>
  C5. In exact arithmetic, for every sequence, every distribution defined on the four
  canonical bases and every random source, the function returns a string and raises no
  error. A character whose upper-case form is none of the ten IUPAC symbols stands
  unchanged in the result (canonical bases, gaps and unknown characters alike). A
  resolved character is replaced by an upper-case base when it is upper-case and by a
  lower-case base otherwise.
  In every arithmetic, whatever its rounding, a returned string has these properties,
  and the only error that a call can raise is the ValueError of \<^verbatim>\<open>random.choices\<close>, at a
  sequence that holds an ambiguity symbol: no character outside the table raises one.
\<close>

theorem resolve_passes_through_and_keeps_case:
  "(lookup_all base_probs ''ACGT'' = Inr t \<longrightarrow>
      (\<exists>out. resolve_ambiguous_sequence exact seq base_probs rng = Inr out
           \<and> length out = length seq
           \<and> (\<forall>i < length seq.
                 if is_ambiguous (seq ! i)
                 then (if py_isupper (seq ! i) then out ! i \<in> set ''ACGT''
                       else out ! i \<in> set ''acgt'')
                 else out ! i = seq ! i)))
   \<and> (lookup_all probs ''ACGT'' = Inr tf \<longrightarrow>
      (case resolve_ambiguous_sequence ar seq probs draws of
         Inr out \<Rightarrow>
           length out = length seq
           \<and> (\<forall>i < length seq.
                 if is_ambiguous (seq ! i)
                 then (if py_isupper (seq ! i) then out ! i \<in> set ''ACGT''
                       else out ! i \<in> set ''acgt'')
                 else out ! i = seq ! i)
       | Inl e \<Rightarrow> e = ValueError \<and> (\<exists>c \<in> set seq. is_ambiguous c)))"
proof (intro conjI impI)
  assume "lookup_all base_probs ''ACGT'' = Inr t"
  from resolve_exact [OF this, where seq = seq and rng = rng] obtain out
    where "resolve_ambiguous_sequence exact seq base_probs rng = Inr out"
      and "list_all2 resolved_char seq out" by blast
  with resolved_case [of seq out]
  show "\<exists>out. resolve_ambiguous_sequence exact seq base_probs rng = Inr out
           \<and> length out = length seq
           \<and> (\<forall>i < length seq.
                 if is_ambiguous (seq ! i)
                 then (if py_isupper (seq ! i) then out ! i \<in> set ''ACGT''
                       else out ! i \<in> set ''acgt'')
                 else out ! i = seq ! i)"
    by blast
next
  assume "lookup_all probs ''ACGT'' = Inr tf"
  note sound = resolve_sound [OF this, where ar = ar and seq = seq and rng = draws]
  show "case resolve_ambiguous_sequence ar seq probs draws of
         Inr out \<Rightarrow>
           length out = length seq
           \<and> (\<forall>i < length seq.
                 if is_ambiguous (seq ! i)
                 then (if py_isupper (seq ! i) then out ! i \<in> set ''ACGT''
                       else out ! i \<in> set ''acgt'')
                 else out ! i = seq ! i)
       | Inl e \<Rightarrow> e = ValueError \<and> (\<exists>c \<in> set seq. is_ambiguous c)"
  proof (cases "resolve_ambiguous_sequence ar seq probs draws")
    case (Inl e)
    with sound show ?thesis by simp
  next
    case (Inr out)
    with sound have "list_all2 resolved_char seq out" by simp
    then show ?thesis unfolding Inr sum.case by (rule resolved_case)
  qed
qed

theorem resolve_passes_through_and_keeps_case_witness:
  "lookup_all [(CHR ''A'', 1), (CHR ''C'', 0), (CHR ''G'', 0), (CHR ''T'', 0)] ''ACGT''
     = Inr [1, 0, 0, 0 :: real]
   \<and> resolve_ambiguous_sequence exact ''aRn-r''
        [(CHR ''A'', 1), (CHR ''C'', 0), (CHR ''G'', 0), (CHR ''T'', 0)] (\<lambda>k. 1 / 2)
       = Inr ''aAn-a''
   \<and> lookup_all [(CHR ''A'', Fin 1), (CHR ''C'', Fin 0), (CHR ''G'', Fin 0), (CHR ''T'', Fin 0)]
        ''ACGT'' = Inr [Fin 1, Fin 0, Fin 0, Fin 0]
   \<and> resolve_ambiguous_sequence binary64 ''aRn-r''
        [(CHR ''A'', Fin 1), (CHR ''C'', Fin 0), (CHR ''G'', Fin 0), (CHR ''T'', Fin 0)]
        (\<lambda>k. Fin (1 / 2)) = Inr ''aAn-a''"
  using resolve_passes_through_and_keeps_case
    [of "[(CHR ''A'', 1), (CHR ''C'', 0), (CHR ''G'', 0), (CHR ''T'', 0)]" "[1, 0, 0, 0]"
        "''aRn-r''" "\<lambda>k. 1 / 2"
        "[(CHR ''A'', Fin 1), (CHR ''C'', Fin 0), (CHR ''G'', Fin 0), (CHR ''T'', Fin 0)]"
        "[Fin 1, Fin 0, Fin 0, Fin 0]" binary64 "\<lambda>k. Fin (1 / 2)"]
  by (simp add: lookup_def resolve_values resolve_values_binary64)

text \<open>
  C9. In exact arithmetic, for every sequence, every distribution defined on the four
  canonical bases and every random source, the result has the length of the input, and
  each of its positions holds either the input character of that position or, where an
  ambiguity symbol stood, a canonical base (in the case of the symbol) that is one of
  the symbol's candidates. In every arithmetic a returned string is of this kind, and a
  call that returns none raises the ValueError of \<^verbatim>\<open>random.choices\<close>.
\<close>

theorem resolve_length_and_positions:
  "(lookup_all base_probs ''ACGT'' = Inr t \<longrightarrow>
      (\<exists>out. resolve_ambiguous_sequence exact seq base_probs rng = Inr out
           \<and> length out = length seq
           \<and> (\<forall>i < length seq.
                 out ! i = seq ! i
                 \<or> (is_ambiguous (seq ! i) \<and> py_upper (out ! i) \<in> set ''ACGT''
                     \<and> (\<exists>bs. map_of AMBIGUOUS_NUCLEOTIDES (py_upper (seq ! i)) = Some bs
                              \<and> py_upper (out ! i) \<in> set bs)))))
   \<and> (lookup_all probs ''ACGT'' = Inr tf \<longrightarrow>
      (case resolve_ambiguous_sequence ar seq probs draws of
         Inr out \<Rightarrow>
           length out = length seq
           \<and> (\<forall>i < length seq.
                 out ! i = seq ! i
                 \<or> (is_ambiguous (seq ! i) \<and> py_upper (out ! i) \<in> set ''ACGT''
                     \<and> (\<exists>bs. map_of AMBIGUOUS_NUCLEOTIDES (py_upper (seq ! i)) = Some bs
                              \<and> py_upper (out ! i) \<in> set bs)))
       | Inl e \<Rightarrow> e = ValueError))"
proof (intro conjI impI)
  assume "lookup_all base_probs ''ACGT'' = Inr t"
  from resolve_exact [OF this, where seq = seq and rng = rng] obtain out
    where "resolve_ambiguous_sequence exact seq base_probs rng = Inr out"
      and "list_all2 resolved_char seq out" by blast
  with resolved_positions [of seq out]
  show "\<exists>out. resolve_ambiguous_sequence exact seq base_probs rng = Inr out
           \<and> length out = length seq
           \<and> (\<forall>i < length seq.
                 out ! i = seq ! i
                 \<or> (is_ambiguous (seq ! i) \<and> py_upper (out ! i) \<in> set ''ACGT''
                     \<and> (\<exists>bs. map_of AMBIGUOUS_NUCLEOTIDES (py_upper (seq ! i)) = Some bs
                              \<and> py_upper (out ! i) \<in> set bs)))"
    by blast
next
  assume "lookup_all probs ''ACGT'' = Inr tf"
  note sound = resolve_sound [OF this, where ar = ar and seq = seq and rng = draws]
  show "case resolve_ambiguous_sequence ar seq probs draws of
         Inr out \<Rightarrow>
           length out = length seq
           \<and> (\<forall>i < length seq.
                 out ! i = seq ! i
                 \<or> (is_ambiguous (seq ! i) \<and> py_upper (out ! i) \<in> set ''ACGT''
                     \<and> (\<exists>bs. map_of AMBIGUOUS_NUCLEOTIDES (py_upper (seq ! i)) = Some bs
                              \<and> py_upper (out ! i) \<in> set bs)))
       | Inl e \<Rightarrow> e = ValueError"
  proof (cases "resolve_ambiguous_sequence ar seq probs draws")
    case (Inl e)
    with sound show ?thesis by simp
  next
    case (Inr out)
    with sound have "list_all2 resolved_char seq out" by simp
    then show ?thesis unfolding Inr sum.case by (rule resolved_positions)
  qed
qed

theorem resolve_length_and_positions_witness:
  "lookup_all [(CHR ''A'', 1 / 4), (CHR ''C'', 1 / 4), (CHR ''G'', 1 / 4), (CHR ''T'', 1 / 4)]
     ''ACGT'' = Inr [1 / 4, 1 / 4, 1 / 4, 1 / 4 :: real]
   \<and> resolve_ambiguous_sequence exact ''AcRy-N''
        [(CHR ''A'', 1 / 4), (CHR ''C'', 1 / 4), (CHR ''G'', 1 / 4), (CHR ''T'', 1 / 4)]
        (\<lambda>k. 3 / 4) = Inr ''AcGt-N''
   \<and> lookup_all [(CHR ''A'', Fin (1 / 4)), (CHR ''C'', Fin (1 / 4)), (CHR ''G'', Fin (1 / 4)),
                   (CHR ''T'', Fin (1 / 4))] ''ACGT''
        = Inr [Fin (1 / 4), Fin (1 / 4), Fin (1 / 4), Fin (1 / 4)]
   \<and> resolve_ambiguous_sequence binary64 ''AcRy-N''
        [(CHR ''A'', Fin (1 / 4)), (CHR ''C'', Fin (1 / 4)), (CHR ''G'', Fin (1 / 4)),
         (CHR ''T'', Fin (1 / 4))] (\<lambda>k. Fin (3 / 4)) = Inr ''AcGt-N''"
  using resolve_length_and_positions
    [of "[(CHR ''A'', 1 / 4), (CHR ''C'', 1 / 4), (CHR ''G'', 1 / 4), (CHR ''T'', 1 / 4)]"
        "[1 / 4, 1 / 4, 1 / 4, 1 / 4]" "''AcRy-N''" "\<lambda>k. 3 / 4"
        "[(CHR ''A'', Fin (1 / 4)), (CHR ''C'', Fin (1 / 4)), (CHR ''G'', Fin (1 / 4)),
          (CHR ''T'', Fin (1 / 4))]"
        "[Fin (1 / 4), Fin (1 / 4), Fin (1 / 4), Fin (1 / 4)]" binary64 "\<lambda>k. Fin (3 / 4)"]
  by (simp add: lookup_def resolve_values resolve_values_binary64)

section \<open>The dataset directory index: proofs\<close>

lemma basename_join:
  assumes "CHR ''/'' \<notin> set f"
  shows "basename (path_join dir f) = f"
proof -
  have f: "takeWhile (\<lambda>c. c \<noteq> CHR ''/'') (rev f @ CHR ''/'' # xs) = rev f" for xs
  proof -
    have "takeWhile (\<lambda>c. c \<noteq> CHR ''/'') (rev f @ CHR ''/'' # xs)
            = rev f @ takeWhile (\<lambda>c. c \<noteq> CHR ''/'') (CHR ''/'' # xs)"
      using assms by (intro takeWhile_append2) auto
    then show ?thesis by simp
  qed
  have g: "takeWhile (\<lambda>c. c \<noteq> CHR ''/'') (rev f) = rev f"
    using assms by (auto simp: takeWhile_eq_all_conv)
  have nostart: "\<not> startswith f ''/''"
    using assms by (cases f) (auto simp: startswith_def)
  show ?thesis
  proof (cases "dir = []")
    case True
    with nostart show ?thesis
      by (simp add: path_join_def basename_def g)
  next
    case False
    show ?thesis
    proof (cases "endswith dir ''/''")
      case True
      then obtain d where "dir = d @ ''/''"
        by (metis append_take_drop_id endswith_def)
      with nostart True show ?thesis
        by (simp add: path_join_def basename_def f)
    next
      case no: False
      with nostart False show ?thesis
        by (simp add: path_join_def basename_def f)
    qed
  qed
qed

lemma match_here_numbered:
  assumes "ds \<noteq> []" and "\<forall>d \<in> set ds. is_digit d" and "rest = [] \<or> \<not> is_digit (hd rest)"
  shows "match_here pre (pre @ ds @ rest) = Some ds"
proof -
  have "takeWhile is_digit (ds @ rest) = ds"
    using assms(2,3) by (cases rest) simp_all
  with assms(1) show ?thesis
    by (simp add: match_here_def startswith_def)
qed

lemma re_search_at_start: "match_here pre s = Some ds \<Longrightarrow> re_search pre s = Some ds"
  by (cases s) simp_all

lemma extract_number_numbered:
  assumes "ds \<noteq> []" and "\<forall>d \<in> set ds. is_digit d"
  shows "extract_number (pre @ ds @ ''.fasta'') pre = int (int_of_digits ds)"
proof -
  have "match_here pre (pre @ ds @ ''.fasta'') = Some ds"
    using assms by (intro match_here_numbered) (simp_all add: is_digit_def)
  then show ?thesis
    by (simp add: extract_number_def re_search_at_start)
qed

lemma numbered_kept: "startswith (pre @ ds @ ''.fasta'') pre \<and> endswith (pre @ ds @ ''.fasta'') ''.fasta''"
  by (simp add: startswith_def endswith_def)

lemma extract_number_range: "- 1 \<le> extract_number f pre"
  by (simp add: extract_number_def split: option.splits)

lemma extract_number_none:
  "extract_number f pre = - 1 \<longleftrightarrow> re_search pre f = None"
  by (simp add: extract_number_def split: option.splits)

lemma sorted_minus_one_first:
  fixes ks :: "int list"
  assumes "sorted ks" and "i < length ks" and "j < length ks"
    and "ks ! i = - 1" and "0 \<le> ks ! j"
  shows "i < j"
proof (rule ccontr)
  assume "\<not> i < j"
  then have "j \<le> i" by simp
  with assms(1,2) have "ks ! j \<le> ks ! i"
    by (simp add: sorted_iff_nth_mono)
  with assms(4,5) show False by simp
qed

lemma kept_values:
  "kept_names ''test'' [''test10.fasta'', ''notes.txt'', ''test2.fasta'', ''testfoo.fasta'', ''test.fasta'']
     = [''test10.fasta'', ''test2.fasta'', ''testfoo.fasta'', ''test.fasta'']"
  by (simp add: kept_names_def startswith_def endswith_def)

lemma number_values:
  "file_number ''test'' ''data/test10.fasta'' = 10"
  "file_number ''test'' ''data/test2.fasta'' = 2"
  "file_number ''test'' ''data/testfoo.fasta'' = - 1"
  "file_number ''test'' ''data/test.fasta'' = - 1"
  by (simp_all add: file_number_def basename_def extract_number_def match_here_def
        startswith_def is_digit_def int_of_digits_def digit_value_def)

lemma index_value:
  "fasta_paths (FastaDataset_init ''data'' ''test''
      [''test10.fasta'', ''notes.txt'', ''test2.fasta'', ''testfoo.fasta'', ''test.fasta''])
     = [''data/testfoo.fasta'', ''data/test.fasta'', ''data/test2.fasta'', ''data/test10.fasta'']"
  by (simp add: FastaDataset_init_def kept_values path_join_def startswith_def endswith_def
        number_values)


section \<open>The dataset directory index: claim\<close>

text \<open>
  C8. For every directory listing (names without a path separator) and prefix, the
  index holds the paths of exactly the listed names that start with the prefix and end
  with \<open>.fasta\<close>, among them every listed name of the form prefix, digits, \<open>.fasta\<close>.
  The paths are sorted by the number extracted from the file name, names of equal number
  keeping the order of the listing. The number of a name prefix, digits, \<open>.fasta\<close> is the
  value of the digits; the number is \<open>-1\<close> exactly when no occurrence of the prefix is
  followed by a digit, and never below that, so the paths without a number stand before
  all numbered ones.
\<close>

theorem fasta_dataset_index:
  assumes "\<forall>f \<in> set listing. CHR ''/'' \<notin> set f"
  shows "mset (fasta_paths (FastaDataset_init dir pre listing))
           = mset (map (path_join dir) (kept_names pre listing))
     \<and> set (kept_names pre listing)
           = {f \<in> set listing. startswith f pre \<and> endswith f ''.fasta''}
     \<and> sorted (map (file_number pre) (fasta_paths (FastaDataset_init dir pre listing)))
     \<and> (\<forall>k. filter (\<lambda>p. file_number pre p = k) (fasta_paths (FastaDataset_init dir pre listing))
              = filter (\<lambda>p. file_number pre p = k) (map (path_join dir) (kept_names pre listing)))
     \<and> (\<forall>f \<in> set listing. file_number pre (path_join dir f) = extract_number f pre)
     \<and> (\<forall>ds. ds \<noteq> [] \<and> (\<forall>d \<in> set ds. is_digit d) \<longrightarrow>
              extract_number (pre @ ds @ ''.fasta'') pre = int (int_of_digits ds)
              \<and> (pre @ ds @ ''.fasta'' \<in> set listing \<longrightarrow>
                    pre @ ds @ ''.fasta'' \<in> set (kept_names pre listing)))
     \<and> (\<forall>f. - 1 \<le> extract_number f pre
              \<and> (extract_number f pre = - 1 \<longleftrightarrow> re_search pre f = None))
     \<and> (\<forall>i j. i < length (fasta_paths (FastaDataset_init dir pre listing))
              \<and> j < length (fasta_paths (FastaDataset_init dir pre listing))
              \<and> file_number pre (fasta_paths (FastaDataset_init dir pre listing) ! i) = - 1
              \<and> file_number pre (fasta_paths (FastaDataset_init dir pre listing) ! j) \<noteq> - 1
              \<longrightarrow> i < j)"
proof -
  let ?paths = "fasta_paths (FastaDataset_init dir pre listing)"
  let ?kept = "map (path_join dir) (kept_names pre listing)"
  have paths: "?paths = sort_key (file_number pre) ?kept"
    by (simp add: FastaDataset_init_def)
  have a: "mset ?paths = mset ?kept"
    by (simp add: paths)
  have b: "set (kept_names pre listing)
             = {f \<in> set listing. startswith f pre \<and> endswith f ''.fasta''}"
    by (auto simp: kept_names_def)
  have c: "sorted (map (file_number pre) ?paths)"
    by (simp add: paths sorted_sort_key)
  have d: "\<forall>k. filter (\<lambda>p. file_number pre p = k) ?paths
                 = filter (\<lambda>p. file_number pre p = k) ?kept"
    by (simp add: paths sort_key_stable)
  have e: "\<forall>f \<in> set listing. file_number pre (path_join dir f) = extract_number f pre"
    using assms by (simp add: file_number_def basename_join)
  have f: "\<forall>ds. ds \<noteq> [] \<and> (\<forall>d \<in> set ds. is_digit d) \<longrightarrow>
              extract_number (pre @ ds @ ''.fasta'') pre = int (int_of_digits ds)
              \<and> (pre @ ds @ ''.fasta'' \<in> set listing \<longrightarrow>
                    pre @ ds @ ''.fasta'' \<in> set (kept_names pre listing))"
    using numbered_kept [of pre] by (simp add: extract_number_numbered b)
  have g: "\<forall>f. - 1 \<le> extract_number f pre
              \<and> (extract_number f pre = - 1 \<longleftrightarrow> re_search pre f = None)"
    by (simp add: extract_number_range extract_number_none)
  have h: "i < j" if "i < length ?paths" "j < length ?paths"
      "file_number pre (?paths ! i) = - 1" "file_number pre (?paths ! j) \<noteq> - 1" for i j
  proof -
    have "- 1 \<le> file_number pre (?paths ! j)"
      by (simp add: file_number_def extract_number_range)
    with that(4) have "0 \<le> file_number pre (?paths ! j)" by simp
    with sorted_minus_one_first [OF c, of i j] that show ?thesis by simp
  qed
  from a b c d e f g h show ?thesis by blast
qed

theorem fasta_dataset_index_witness:
  "fasta_paths (FastaDataset_init ''data'' ''test''
      [''test10.fasta'', ''notes.txt'', ''test2.fasta'', ''testfoo.fasta'', ''test.fasta''])
     = [''data/testfoo.fasta'', ''data/test.fasta'', ''data/test2.fasta'', ''data/test10.fasta'']
   \<and> map (file_number ''test'')
        [''data/testfoo.fasta'', ''data/test.fasta'', ''data/test2.fasta'', ''data/test10.fasta'']
     = [- 1, - 1, 2, 10]"
  using fasta_dataset_index [of
      "[''test10.fasta'', ''notes.txt'', ''test2.fasta'', ''testfoo.fasta'', ''test.fasta'']"
      "''data''" "''test''"]
  by (simp add: index_value number_values)

section \<open>FASTA text: proofs\<close>

lemma round_trip_header_space:
  "round_trip [('' h'', ''A'')] 80 = Inr [(''h'', ''A'')]"
  by (simp add: round_trip_def write_fasta_def write_lines_def record_lines_def wrap_def
        py_range_def read_fasta_def read_line_def flush_def startswith_def strip_def
        py_isspace_def py_whitespace_def remove_char_def)

lemma round_trip_inner_space:
  "round_trip [(''h'', ''A C'')] 80 = Inr [(''h'', ''AC'')]"
  by (simp add: round_trip_def write_fasta_def write_lines_def record_lines_def wrap_def
        py_range_def read_fasta_def read_line_def flush_def startswith_def strip_def
        py_isspace_def py_whitespace_def remove_char_def)

lemma round_trip_delimiter:
  "round_trip [(''h'', ''A>C'')] 1 = Inr [(''h'', ''A''), ('''', ''C'')]"
  by (simp add: round_trip_def write_fasta_def write_lines_def record_lines_def wrap_def
        py_range_def read_fasta_def read_line_def flush_def startswith_def strip_def
        py_isspace_def py_whitespace_def remove_char_def)

lemma wrap_values:
  "wrap ''ACGTAC'' 4 = [''ACGT'', ''AC'']" "wrap [] 4 = []" "wrap ''RY>W'' 4 = [''RY>W'']"
  by (simp_all add: wrap_def py_range_def upt_rec)

lemma round_trip_value:
  "round_trip [(''s1'', ''ACGTAC''), (''s2 desc'', []), (''x>y'', ''RY>W'')] 4
     = Inr [(''s1'', ''ACGTAC''), (''s2 desc'', []), (''x>y'', ''RY>W'')]"
  by (simp add: round_trip_def write_fasta_def write_lines_def record_lines_def wrap_values
        read_fasta_def read_line_def flush_def startswith_def strip_def
        py_isspace_def py_whitespace_def remove_char_def)

lemma clean_values:
  "clean_record 4 (''s1'', ''ACGTAC'')" "clean_record 4 (''s2 desc'', [])"
  "clean_record 4 (''x>y'', ''RY>W'')"
  by (simp_all add: clean_record_def clean_header_def clean_sequence_def wrap_values
        startswith_def strip_def py_isspace_def py_whitespace_def)

lemma dropWhile_none: "\<forall>x \<in> set xs. \<not> P x \<Longrightarrow> dropWhile P xs = xs"
  by (cases xs) simp_all

lemma strip_clean: "list_all (\<lambda>c. \<not> py_isspace c) l \<Longrightarrow> strip l = l"
  by (simp add: strip_def dropWhile_none list_all_iff)

lemma space_chars:
  "py_isspace CHR 0x20" "py_isspace CHR 0x09" "py_isspace LF" "py_isspace CR"
  by (simp_all add: py_isspace_def py_whitespace_def)

lemma remove_clean:
  assumes "list_all (\<lambda>c. \<not> py_isspace c) s"
  shows "remove_char CHR 0x09 (remove_char CHR 0x20 s) = s"
proof -
  from assms have "CHR 0x20 \<notin> set s" "CHR 0x09 \<notin> set s"
    using space_chars by (auto simp: list_all_iff)
  then show ?thesis
    by (auto simp: remove_char_def filter_id_conv)
qed

lemma range_covers:
  fixes n w :: nat
  assumes "0 < w"
  shows "n \<le> (n + w - 1) div w * w"
proof -
  have "(n + w - 1) div w * w + (n + w - 1) mod w = n + w - 1"
    by (rule div_mult_mod_eq)
  moreover have "(n + w - 1) mod w < w"
    using assms by simp
  ultimately show ?thesis by linarith
qed

lemma range_inside:
  fixes n w k :: nat
  assumes "0 < w" and "k < (n + w - 1) div w"
  shows "k * w < n"
proof -
  from assms(2) have "Suc k \<le> (n + w - 1) div w" by simp
  with assms(1) have "Suc k * w \<le> n + w - 1"
    by (simp add: less_eq_div_iff_mult_less_eq)
  with assms(1) show ?thesis by simp
qed

lemma concat_chunks:
  "concat (map (\<lambda>k. take w (drop (k * w) s)) [0..<m]) = take (m * w) s"
proof (induction m)
  case 0
  show ?case by simp
next
  case (Suc m)
  have "take (m * w + w) s = take (m * w) s @ take w (drop (m * w) s)"
    by (rule take_add)
  with Suc show ?case by (simp add: add.commute)
qed

lemma concat_wrap:
  assumes "0 < w"
  shows "concat (wrap s w) = s"
proof -
  have "concat (wrap s w) = take ((length s + w - 1) div w * w) s"
    by (simp add: wrap_def py_range_def comp_def concat_chunks)
  with range_covers [OF assms, of "length s"] show ?thesis by simp
qed

lemma wrap_lines:
  assumes "0 < w" and "l \<in> set (wrap s w)"
  shows "l \<noteq> [] \<and> set l \<subseteq> set s"
proof -
  from assms(2) obtain k where k: "k < (length s + w - 1) div w"
    and l: "l = take w (drop (k * w) s)"
    by (auto simp: wrap_def py_range_def)
  from range_inside [OF assms(1) k] have "k * w < length s" .
  with assms(1) l have "l \<noteq> []" by simp
  moreover have "set l \<subseteq> set s"
    unfolding l using set_take_subset set_drop_subset by fast
  ultimately show ?thesis by simp
qed

lemma file_lines_line: "LF \<notin> set l \<Longrightarrow> file_lines (l @ LF # rest) = l # file_lines rest"
  by (induction l) auto

lemma file_lines_written:
  "\<forall>l \<in> set ls. LF \<notin> set l \<Longrightarrow> file_lines (write_lines ls) = ls"
  unfolding write_lines_def
  by (induction ls) (simp_all add: file_lines_line)

lemma universal_newlines_id: "CR \<notin> set cs \<Longrightarrow> universal_newlines cs = cs"
  by (induction cs rule: universal_newlines.induct) auto

lemma read_sequence_lines:
  assumes "\<forall>l \<in> set cs. l \<noteq> [] \<and> \<not> startswith l ''>'' \<and> strip l = l"
  shows "foldl read_line (recs, hdr, sl) cs = (recs, hdr, sl @ cs)"
  using assms
  by (induction cs arbitrary: sl) (simp_all add: read_line_def)

lemma read_record:
  assumes "0 < w" and "clean_record w (h, s)"
  shows "foldl read_line st (record_lines w (h, s)) = (flush st, Some h, wrap s w)"
proof -
  from assms(2) have h: "strip h = h"
    and s: "list_all (\<lambda>c. \<not> py_isspace c) s"
    and gt: "list_all (\<lambda>l. \<not> startswith l ''>'') (wrap s w)"
    by (simp_all add: clean_record_def clean_header_def clean_sequence_def)
  have "l \<noteq> [] \<and> \<not> startswith l ''>'' \<and> strip l = l" if "l \<in> set (wrap s w)" for l
  proof -
    from wrap_lines [OF assms(1) that] s have "l \<noteq> []" "list_all (\<lambda>c. \<not> py_isspace c) l"
      by (auto simp: list_all_iff)
    with gt that show ?thesis
      by (simp add: strip_clean list_all_iff)
  qed
  then have "foldl read_line (flush st, Some h, []) (wrap s w) = (flush st, Some h, [] @ wrap s w)"
    by (intro read_sequence_lines) blast
  moreover have "read_line st (''>'' @ h) = (flush st, Some h, [])"
    using h by (cases st) (simp add: read_line_def startswith_def)
  ultimately show ?thesis
    by (simp add: record_lines_def)
qed

lemma flush_record:
  assumes "0 < w" and "clean_record w (h, s)"
  shows "flush (fl, Some h, wrap s w) = fl @ [(h, s)]"
  using assms
  by (simp add: flush_def concat_wrap remove_clean clean_record_def clean_sequence_def)

lemma read_records:
  assumes "0 < w" and "\<forall>r \<in> set rs. clean_record w r"
  shows "flush (foldl read_line st (concat (map (record_lines w) rs))) = flush st @ rs"
  using assms(2)
proof (induction rs arbitrary: st)
  case Nil
  show ?case by simp
next
  case (Cons r rs)
  obtain h s where r: "r = (h, s)" by (cases r)
  with Cons.prems have c: "clean_record w (h, s)" by simp
  have "flush (foldl read_line st (concat (map (record_lines w) (r # rs))))
          = flush (foldl read_line (flush st, Some h, wrap s w) (concat (map (record_lines w) rs)))"
    by (simp add: r read_record [OF assms(1) c])
  also have "\<dots> = flush (flush st, Some h, wrap s w) @ rs"
    using Cons.prems by (intro Cons.IH) simp
  also have "\<dots> = flush st @ r # rs"
    by (simp add: flush_record [OF assms(1) c] r)
  finally show ?case .
qed

lemma record_lines_chars:
  assumes "0 < w" and "clean_record w r" and "l \<in> set (record_lines w r)"
  shows "LF \<notin> set l \<and> CR \<notin> set l"
proof -
  obtain h s where r: "r = (h, s)" by (cases r)
  from assms(2) r have h: "LF \<notin> set h" "CR \<notin> set h"
    and s: "list_all (\<lambda>c. \<not> py_isspace c) s"
    by (simp_all add: clean_record_def clean_header_def clean_sequence_def)
  from s have s': "LF \<notin> set s" "CR \<notin> set s"
    using space_chars by (auto simp: list_all_iff)
  from assms(3) r consider "l = ''>'' @ h" | "l \<in> set (wrap s w)"
    by (auto simp: record_lines_def)
  then show ?thesis
  proof cases
    case 1
    with h show ?thesis by simp
  next
    case 2
    from wrap_lines [OF assms(1) 2] s' show ?thesis by blast
  qed
qed


section \<open>FASTA text: claim\<close>

text \<open>
  C1, as stated, at the collection of the one record with header \<open>" h"\<close> and sequence
  \<open>"A"\<close>, width 80: the record has no line feed and its sequence no white space at its
  ends, and reading back what was written returns the header \<open>"h"\<close>, since the parser
  strips headers. In the same way a blank inside a sequence is deleted (lemma
  \<open>round_trip_inner_space\<close>) and a sequence line that begins with the delimiter is read
  as a header (lemma \<open>round_trip_delimiter\<close>).
\<close>

theorem round_trip_counterexample:
  "newline_free_record ('' h'', ''A'')
   \<and> round_trip [('' h'', ''A'')] 80 = Inr [(''h'', ''A'')]
   \<and> round_trip [('' h'', ''A'')] 80 \<noteq> Inr [('' h'', ''A'')]"
  by (simp add: round_trip_header_space newline_free_record_def strip_def py_isspace_def
        py_whitespace_def)

text \<open>
  C1, amended. For every width of at least 1 and every collection in which each header
  has neither a line end (\<open>LF\<close>, \<open>CR\<close>) nor white space at its ends, and each sequence
  has no white space at all and no output line that begins with the delimiter \<open>>\<close>,
  writing succeeds and reading the written text back returns the collection, record for
  record and in the same order.
\<close>

theorem round_trip_clean:
  assumes "0 < width" and "\<forall>r \<in> set rs. clean_record (nat width) r"
  shows "round_trip rs width = Inr rs"
proof -
  let ?ls = "concat (map (record_lines (nat width)) rs)"
  from assms(1) have w: "0 < nat width" by simp
  have chars: "\<forall>l \<in> set ?ls. LF \<notin> set l \<and> CR \<notin> set l"
    using record_lines_chars [OF w] assms(2) by auto
  then have "CR \<notin> set (write_lines ?ls)"
    by (auto simp: write_lines_def)
  then have "file_lines (universal_newlines (write_lines ?ls)) = ?ls"
    using chars by (simp add: universal_newlines_id file_lines_written)
  then have "read_fasta (write_lines ?ls) = rs"
    using read_records [OF w assms(2), of "([], None, [])"]
    by (simp add: read_fasta_def flush_def)
  with assms(1) show ?thesis
    by (simp add: round_trip_def write_fasta_def)
qed

theorem round_trip_clean_witness:
  "round_trip [(''s1'', ''ACGTAC''), (''s2 desc'', []), (''x>y'', ''RY>W'')] 4
     = Inr [(''s1'', ''ACGTAC''), (''s2 desc'', []), (''x>y'', ''RY>W'')]"
  using round_trip_clean [of 4 "[(''s1'', ''ACGTAC''), (''s2 desc'', []), (''x>y'', ''RY>W'')]"]
    clean_values
  by simp

end
